theory Spec2Isabelle
  imports Complex_Main "HOL-Library.Word"
begin

unbundle bit_operations_syntax

section \<open>Bytes, Go slices and big-endian integers\<close>

type_synonym byte = "8 word"
type_synonym bytes = "byte list"
type_synonym u16 = "16 word"
type_synonym u32 = "32 word"
type_synonym u64 = "64 word"

text \<open>A Go error value carries its message.\<close>
type_synonym error = string

text \<open>The run-time panics the engine can raise.\<close>
datatype panic = SliceBounds | IndexRange | NilDereference

text \<open>
  A Go byte slice is a window on a backing array: \<open>elems\<close> are the \<open>len\<close> visible
  bytes, \<open>spare\<close> the bytes of the backing array between \<open>len\<close> and \<open>cap\<close>.
  A slice expression \<open>s[lo:hi]\<close> is checked against the capacity, \<open>s[lo:]\<close> against
  the length; a failed check is a panic.
\<close>
record goslice =
  elems :: bytes
  spare :: bytes

definition slen :: "goslice \<Rightarrow> nat" where
  "slen s = length (elems s)"

definition scap :: "goslice \<Rightarrow> nat" where
  "scap s = length (elems s) + length (spare s)"

definition reslice :: "goslice \<Rightarrow> nat \<Rightarrow> nat \<Rightarrow> panic + goslice" where
  "reslice s lo hi =
     (if lo \<le> hi \<and> hi \<le> scap s
      then Inr \<lparr>elems = take (hi - lo) (drop lo (elems s @ spare s)),
                spare = drop hi (elems s @ spare s)\<rparr>
      else Inl SliceBounds)"

definition reslice_from :: "goslice \<Rightarrow> nat \<Rightarrow> panic + goslice" where
  "reslice_from s lo =
     (if lo \<le> slen s then Inr \<lparr>elems = drop lo (elems s), spare = spare s\<rparr>
      else Inl SliceBounds)"

text \<open>\<open>binary.BigEndian.Uint64\<close>, \<open>PutUint64\<close> and \<open>Uint16\<close> (on slices long enough).\<close>

definition Uint64 :: "bytes \<Rightarrow> u64" where
  "Uint64 b = ucast (b ! 7) OR push_bit 8 (ucast (b ! 6)) OR push_bit 16 (ucast (b ! 5))
     OR push_bit 24 (ucast (b ! 4)) OR push_bit 32 (ucast (b ! 3)) OR push_bit 40 (ucast (b ! 2))
     OR push_bit 48 (ucast (b ! 1)) OR push_bit 56 (ucast (b ! 0))"

definition PutUint64 :: "u64 \<Rightarrow> bytes" where
  "PutUint64 v = [ucast (drop_bit 56 v), ucast (drop_bit 48 v), ucast (drop_bit 40 v),
     ucast (drop_bit 32 v), ucast (drop_bit 24 v), ucast (drop_bit 16 v),
     ucast (drop_bit 8 v), ucast v]"

definition Uint16 :: "bytes \<Rightarrow> u16" where
  "Uint16 b = ucast (b ! 1) OR push_bit 8 (ucast (b ! 0))"

section \<open>Storage frames: writer and readers (engine.go)\<close>

text \<open>
  \<open>compress\<close> and \<open>decompress\<close> wrap the zstd library, \<open>proto.Unmarshal\<close> the
  protobuf library; the three are parameters of the model. Each returns either an
  error or its output.
\<close>

datatype file_io = OpenFails error | WriteFails error | IoOk

text \<open>
  \<open>appendToFile\<close>: a compression error is logged only, and the frame is then written
  with the nil payload. The result is the new content of the file, or the error
  of \<open>os.OpenFile\<close> or \<open>file.Write\<close>.
\<close>
definition appendToFile ::
  "(bytes \<Rightarrow> error + bytes) \<Rightarrow> file_io \<Rightarrow> bytes \<Rightarrow> bytes \<Rightarrow> error + bytes" where
  "appendToFile compress io content data =
     (let compressedData = (case compress data of Inl e \<Rightarrow> [] | Inr c \<Rightarrow> c);
          bytesToSave = PutUint64 (of_nat (length compressedData)) @ compressedData
      in case io of
           OpenFails e \<Rightarrow> Inl e
         | WriteFails e \<Rightarrow> Inl e
         | IoOk \<Rightarrow> Inr (content @ bytesToSave))"

text \<open>\<open>saveFile\<close>: the same frame, written to a fresh file.\<close>
definition saveFile ::
  "(bytes \<Rightarrow> error + bytes) \<Rightarrow> file_io \<Rightarrow> bytes \<Rightarrow> error + bytes" where
  "saveFile compress io data =
     (let compressedData = (case compress data of Inl e \<Rightarrow> [] | Inr c \<Rightarrow> c);
          bytesToSave = PutUint64 (of_nat (length compressedData)) @ compressedData
      in case io of
           OpenFails e \<Rightarrow> Inl e
         | WriteFails e \<Rightarrow> Inl e
         | IoOk \<Rightarrow> Inr bytesToSave)"

text \<open>Appending the records of a list one after the other, every write succeeding.\<close>
fun append_all :: "(bytes \<Rightarrow> error + bytes) \<Rightarrow> bytes \<Rightarrow> bytes list \<Rightarrow> error + bytes" where
  "append_all compress content [] = Inr content"
| "append_all compress content (r # rs) =
     (case appendToFile compress IoOk content r of
        Inl e \<Rightarrow> Inl e
      | Inr content' \<Rightarrow> append_all compress content' rs)"

text \<open>
  The frame loop of \<open>Read\<close> (the goroutine): a decompression error is logged and the
  nil packet is parsed all the same; the packet is handed to the parser before the
  buffer is advanced. The result is the packets handed over, in order, and the panic
  that ended the loop, if any.
\<close>
function Read_loop :: "(bytes \<Rightarrow> error + bytes) \<Rightarrow> goslice \<Rightarrow> bytes list \<times> panic option" where
  "Read_loop decompress b =
     (if slen b > 8 then
        (case reslice b 0 8 of
           Inl p \<Rightarrow> ([], Some p)
         | Inr h \<Rightarrow>
            (let sizeOfPacket = Uint64 (elems h) in
             case reslice b 8 (unat (sizeOfPacket + 8)) of
               Inl p \<Rightarrow> ([], Some p)
             | Inr fr \<Rightarrow>
                (let packet = (case decompress (elems fr) of Inl e \<Rightarrow> [] | Inr d \<Rightarrow> d) in
                 case reslice_from b (unat (sizeOfPacket + 8)) of
                   Inl p \<Rightarrow> ([packet], Some p)
                 | Inr b' \<Rightarrow>
                    (case Read_loop decompress b' of (ps, r) \<Rightarrow> (packet # ps, r)))))
      else ([], None))"
  by pat_completeness auto
termination
  by (relation "measure (\<lambda>(d, b). slen b)")
     (auto simp: slen_def reslice_def reslice_from_def split: if_splits)

declare Read_loop.simps [simp del]

text \<open>
  One entry of the instrument map (\<open>storage.TickerMap\<close>), as \<open>Serve\<close> fills it; the
  two floating-point fields, the strike and the tick size, are left out.
\<close>
record TickerMap =
  tm_Token :: u32
  tm_TradingSymbol :: string
  tm_Exchange :: string
  tm_Name :: string
  tm_Expiry :: string
  tm_InstrumentType :: string
  tm_Segment :: string
  tm_LotSize :: u32

datatype failure = Panicked panic | Failed error

text \<open>The entries of one frame, each stored under its token, in order.\<close>
definition store_all :: "TickerMap list \<Rightarrow> (u32 \<rightharpoonup> TickerMap) \<Rightarrow> (u32 \<rightharpoonup> TickerMap)" where
  "store_all tickerMap tokenNameMap =
     fold (\<lambda>ts m. m(tm_Token ts \<mapsto> ts)) tickerMap tokenNameMap"

text \<open>
  The frame loop of \<open>readMap\<close>: a decompression or unmarshalling error is returned;
  every entry of every frame is stored under its token.
\<close>
function readMap_loop ::
  "(bytes \<Rightarrow> error + bytes) \<Rightarrow> (bytes \<Rightarrow> error + TickerMap list) \<Rightarrow> goslice \<Rightarrow>
   (u32 \<rightharpoonup> TickerMap) \<Rightarrow> failure + (u32 \<rightharpoonup> TickerMap)" where
  "readMap_loop decompress unmarshal b tokenNameMap =
     (if slen b > 8 then
        (case reslice b 0 8 of
           Inl p \<Rightarrow> Inl (Panicked p)
         | Inr h \<Rightarrow>
            (let sizeOfPacket = Uint64 (elems h) in
             case reslice b 8 (unat (sizeOfPacket + 8)) of
               Inl p \<Rightarrow> Inl (Panicked p)
             | Inr fr \<Rightarrow>
                (case decompress (elems fr) of
                   Inl e \<Rightarrow> Inl (Failed e)
                 | Inr packet \<Rightarrow>
                    (case reslice_from b (unat (sizeOfPacket + 8)) of
                       Inl p \<Rightarrow> Inl (Panicked p)
                     | Inr b' \<Rightarrow>
                        (case unmarshal packet of
                           Inl e \<Rightarrow> Inl (Failed e)
                         | Inr tickerMap \<Rightarrow>
                             readMap_loop decompress unmarshal b'
                               (store_all tickerMap tokenNameMap))))))
      else Inr tokenNameMap)"
  by pat_completeness auto
termination
  by (relation "measure (\<lambda>(d, u, b, m). slen b)")
     (auto simp: slen_def reslice_def reslice_from_def split: if_splits)

declare readMap_loop.simps [simp del]

text \<open>\<open>readMap\<close>: the file is read whole; a missing file is an error.\<close>
definition readMap ::
  "(bytes \<Rightarrow> error + bytes) \<Rightarrow> (bytes \<Rightarrow> error + TickerMap list) \<Rightarrow> error + goslice \<Rightarrow>
   failure + (u32 \<rightharpoonup> TickerMap)" where
  "readMap decompress unmarshal content =
     (case content of
        Inl e \<Rightarrow> Inl (Failed e)
      | Inr b \<Rightarrow> readMap_loop decompress unmarshal b Map.empty)"


text \<open>
  The payload a record is stored with, and the frame around a payload:
  the 8-byte big-endian length, then the payload.
\<close>
definition payload :: "(bytes \<Rightarrow> error + bytes) \<Rightarrow> bytes \<Rightarrow> bytes" where
  "payload compress data = (case compress data of Inl e \<Rightarrow> [] | Inr c \<Rightarrow> c)"

definition frame :: "bytes \<Rightarrow> bytes" where
  "frame c = PutUint64 (of_nat (length c)) @ c"

text \<open>What the reader hands on for a stored payload.\<close>
definition unpacked :: "(bytes \<Rightarrow> error + bytes) \<Rightarrow> bytes \<Rightarrow> bytes" where
  "unpacked decompress c = (case decompress c of Inl e \<Rightarrow> [] | Inr d \<Rightarrow> d)"

text \<open>
  A codec that stores its input as it is. It is lossless and, as the zstd encoder
  does in the configuration \<open>compress\<close> uses, it emits no byte for an empty input.
\<close>
definition stored :: "bytes \<Rightarrow> error + bytes" where
  "stored input = Inr input"

text \<open>
  A record is kept by a codec when it is compressed without error, to a payload that
  decompresses to the record and whose length plus 8 fits 64 bits.
\<close>
definition lossless :: "(bytes \<Rightarrow> error + bytes) \<Rightarrow> (bytes \<Rightarrow> error + bytes) \<Rightarrow> bytes \<Rightarrow> bool" where
  "lossless compress decompress r =
     (case compress r of
        Inl e \<Rightarrow> False
      | Inr c \<Rightarrow> decompress c = Inr r \<and> length c < 18446744073709551608)"

text \<open>
  The payloads the reader loops reach in a file of frames: all of them, but a last one
  that is empty (the loops run while more than eight bytes remain).
\<close>
definition reached :: "bytes list \<Rightarrow> bytes list" where
  "reached cs = (if cs \<noteq> [] \<and> last cs = [] then butlast cs else cs)"

text \<open>
  The logical field values of a sequence of records, in order, for a parser that gives
  the field values of one record.
\<close>
definition field_values :: "(bytes \<Rightarrow> 'v list) \<Rightarrow> bytes list \<Rightarrow> 'v list" where
  "field_values parse recs = concat (map parse recs)"

section \<open>The binary tick decoder (engine.go, the binary-data handler of Serve)\<close>

record Order =
  Price :: u32
  Quantity :: u32
  Orders :: u32

record Depth =
  Buy :: "Order list"
  Sell :: "Order list"

record Ticker =
  Token :: u32
  LastPrice :: u32
  LastTradedQuantity :: u32
  AverageTradedPrice :: u32
  VolumeTraded :: u32
  TotalBuy :: u32
  TotalSell :: u32
  High :: u32
  Low :: u32
  Open :: u32
  Close :: u32
  PriceChange :: u32
  LastTradedTimestamp :: u32
  OI :: u32
  OIHigh :: u32
  OILow :: u32
  ExchangeTimestamp :: u32
  LotSize :: u32
  Depth :: Depth

datatype logline = UnknownPacketLength nat "u32 list"

text \<open>The ticker as it is allocated: every field zero, both sides of the depth empty.\<close>
definition new_ticker :: Ticker where
  "new_ticker = \<lparr>Token = 0, LastPrice = 0, LastTradedQuantity = 0, AverageTradedPrice = 0,
     VolumeTraded = 0, TotalBuy = 0, TotalSell = 0, High = 0, Low = 0, Open = 0, Close = 0,
     PriceChange = 0, LastTradedTimestamp = 0, OI = 0, OIHigh = 0, OILow = 0,
     ExchangeTimestamp = 0, LotSize = 0, Depth = \<lparr>Buy = [], Sell = []\<rparr>\<rparr>"

text \<open>
  The header fields: token and last price when there are at least two values, then the
  switch on the number of values; the default branch logs and does nothing else.
\<close>
definition assign_header :: "u32 list \<Rightarrow> Ticker \<times> logline list" where
  "assign_header values =
     (let ticker = (if length values \<ge> 2
                    then new_ticker\<lparr>Token := values ! 0, LastPrice := values ! 1\<rparr>
                    else new_ticker)
      in if length values = 2 then (ticker, [])
         else if length values = 7 then
           (ticker\<lparr>High := values ! 2, Low := values ! 3, Open := values ! 4,
              Close := values ! 5, ExchangeTimestamp := values ! 6\<rparr>, [])
         else if length values = 8 then
           (ticker\<lparr>High := values ! 2, Low := values ! 3, Open := values ! 4,
              Close := values ! 5, PriceChange := values ! 6,
              ExchangeTimestamp := values ! 7\<rparr>, [])
         else if length values = 11 then
           (ticker\<lparr>LastTradedQuantity := values ! 2, AverageTradedPrice := values ! 3,
              VolumeTraded := values ! 4, TotalBuy := values ! 5, TotalSell := values ! 6,
              High := values ! 7, Low := values ! 8, Open := values ! 9,
              Close := values ! 10\<rparr>, [])
         else if length values = 16 then
           (ticker\<lparr>LastTradedQuantity := values ! 2, AverageTradedPrice := values ! 3,
              VolumeTraded := values ! 4, TotalBuy := values ! 5, TotalSell := values ! 6,
              High := values ! 7, Low := values ! 8, Open := values ! 9,
              Close := values ! 10, LastTradedTimestamp := values ! 11, OI := values ! 12,
              OIHigh := values ! 13, OILow := values ! 14,
              ExchangeTimestamp := values ! 15\<rparr>, [])
         else (ticker, [UnknownPacketLength (length values) values]))"

text \<open>
  The depth loop: while values remain, the first three are read as quantity, price and
  orders (an index past the end panics), and the order goes to the buy side while that
  side is shorter than \<open>lobDepth\<close>, to the sell side afterwards.
\<close>
fun depth_loop :: "nat \<Rightarrow> u32 list \<Rightarrow> Depth \<Rightarrow> panic + Depth" where
  "depth_loop lobDepth [] d = Inr d"
| "depth_loop lobDepth [qty] d = Inl IndexRange"
| "depth_loop lobDepth [qty, price] d = Inl IndexRange"
| "depth_loop lobDepth (qty # price # orders # values) d =
     depth_loop lobDepth values
       (if length (Buy d) < lobDepth
        then d\<lparr>Buy := Buy d @ [\<lparr>Price = price, Quantity = qty, Orders = orders\<rparr>]\<rparr>
        else d\<lparr>Sell := Sell d @ [\<lparr>Price = price, Quantity = qty, Orders = orders\<rparr>]\<rparr>)"

text \<open>
  One packet up to the lot-size lookup. \<open>ParseBinary\<close> and \<open>ParseMarketDepth\<close> (methods
  of \<open>kite.Packet\<close>) are parameters: they take the bytes of the packet (and the size) and
  return the values.
\<close>
definition decode_packet ::
  "(bytes \<Rightarrow> nat \<Rightarrow> u32 list) \<Rightarrow> (bytes \<Rightarrow> u32 list) \<Rightarrow> goslice \<Rightarrow>
   logline list \<times> (panic + Ticker)" where
  "decode_packet ParseBinary ParseMarketDepth packet =
     (let values = ParseBinary (elems packet) (min 64 (slen packet)) in
      case assign_header values of (ticker, logs) \<Rightarrow>
        if slen packet > 64 then
          (case reslice_from packet 64 of
             Inl p \<Rightarrow> (logs, Inl p)
           | Inr packet' \<Rightarrow>
              (let values = ParseMarketDepth (elems packet');
                   lobDepth = length values div 6
               in case depth_loop lobDepth values (Depth ticker) of
                    Inl p \<Rightarrow> (logs, Inl p)
                  | Inr d \<Rightarrow> (logs, Inr (ticker\<lparr>Depth := d\<rparr>))))
        else (logs, Inr ticker))"

text \<open>
  The lot size: the entry of the token is looked up and its field read. The map holds
  pointers, so a token that is not a key yields the nil pointer, and reading the field
  of it panics. The ticker is then marshalled to JSON and the result dropped; that step
  has no effect and is left out.
\<close>
definition enrich :: "(u32 \<rightharpoonup> TickerMap) \<Rightarrow> Ticker \<Rightarrow> panic + Ticker" where
  "enrich tokenTradingsymbolMap ticker =
     (case tokenTradingsymbolMap (Token ticker) of
        None \<Rightarrow> Inl NilDereference
      | Some tokenData \<Rightarrow> Inr (ticker\<lparr>LotSize := tm_LotSize tokenData\<rparr>))"

definition process_packet ::
  "(u32 \<rightharpoonup> TickerMap) \<Rightarrow> (bytes \<Rightarrow> nat \<Rightarrow> u32 list) \<Rightarrow> (bytes \<Rightarrow> u32 list) \<Rightarrow> goslice \<Rightarrow>
   logline list \<times> (panic + Ticker)" where
  "process_packet tokenTradingsymbolMap ParseBinary ParseMarketDepth packet =
     (case decode_packet ParseBinary ParseMarketDepth packet of
        (logs, Inl p) \<Rightarrow> (logs, Inl p)
      | (logs, Inr ticker) \<Rightarrow> (logs, enrich tokenTradingsymbolMap ticker))"

text \<open>The message is advanced past the packet only when more bytes follow it.\<close>
definition advance :: "goslice \<Rightarrow> u16 \<Rightarrow> panic + goslice" where
  "advance message packetSize =
     (if slen message > unat (packetSize + 2)
      then reslice_from message (unat (packetSize + 2))
      else Inr message)"

text \<open>
  The packet loop, \<open>numOfPackets\<close> times: the tickers built, the lines logged, and the
  panic that ended the handler, if any. The sum \<open>packetSize + 2\<close> is a 16-bit sum.
\<close>
fun packets_loop ::
  "(u32 \<rightharpoonup> TickerMap) \<Rightarrow> (bytes \<Rightarrow> nat \<Rightarrow> u32 list) \<Rightarrow> (bytes \<Rightarrow> u32 list) \<Rightarrow> nat \<Rightarrow> goslice \<Rightarrow>
   Ticker list \<times> logline list \<times> panic option" where
  "packets_loop D ParseBinary ParseMarketDepth 0 message = ([], [], None)"
| "packets_loop D ParseBinary ParseMarketDepth (Suc numOfPackets) message =
     (case reslice message 0 2 of
        Inl p \<Rightarrow> ([], [], Some p)
      | Inr h \<Rightarrow>
         (let packetSize = Uint16 (elems h) in
          case reslice message 2 (unat (packetSize + 2)) of
            Inl p \<Rightarrow> ([], [], Some p)
          | Inr packet \<Rightarrow>
             (case process_packet D ParseBinary ParseMarketDepth packet of
                (logs, Inl p) \<Rightarrow> ([], logs, Some p)
              | (logs, Inr ticker) \<Rightarrow>
                 (case advance message packetSize of
                    Inl p \<Rightarrow> ([ticker], logs, Some p)
                  | Inr message' \<Rightarrow>
                     (case packets_loop D ParseBinary ParseMarketDepth numOfPackets message' of
                        (ts, ls, r) \<Rightarrow> (ticker # ts, logs @ ls, r))))))"

declare packets_loop.simps(2) [simp del]

text \<open>
  The handler on one message: the number of packets, then the packet loop. Before that
  the handler appends the raw message to the file of the day when a market is open
  (\<open>appendToFile\<close> above); the decoding does not depend on it.
\<close>
definition handle_message ::
  "(u32 \<rightharpoonup> TickerMap) \<Rightarrow> (bytes \<Rightarrow> nat \<Rightarrow> u32 list) \<Rightarrow> (bytes \<Rightarrow> u32 list) \<Rightarrow> goslice \<Rightarrow>
   Ticker list \<times> logline list \<times> panic option" where
  "handle_message D ParseBinary ParseMarketDepth message =
     (case reslice message 0 2 of
        Inl p \<Rightarrow> ([], [], Some p)
      | Inr h \<Rightarrow>
         (let numOfPackets = Uint16 (elems h) in
          if numOfPackets > 0 then
            (case reslice_from message 2 of
               Inl p \<Rightarrow> ([], [], Some p)
             | Inr message' \<Rightarrow>
                 packets_loop D ParseBinary ParseMarketDepth (unat numOfPackets) message')
          else ([], [], None)))"

text \<open>
  The depth ladder in the spec's words: the values in groups of three, each group a
  quantity, a price and an order count; an incomplete last group is no group.
\<close>
fun depth_groups :: "u32 list \<Rightarrow> Order list" where
  "depth_groups (qty # price # orders # values) =
     \<lparr>Price = price, Quantity = qty, Orders = orders\<rparr> # depth_groups values"
| "depth_groups values = []"

text \<open>
  Modelled from the spec: \<open>Packet.ParseBinary\<close> and \<open>Packet.ParseMarketDepth\<close> are not
  among the sources. The spec has the header decoded "as a sequence of numeric fields"
  and the depth as "repeating groups of 3 fields"; the theorems below hold for every
  pair of parsers, and these two serve as the concrete parsers of the examples. The
  width of a field, four bytes in big-endian order, is the one at which the 64-byte
  header holds the 16 fields of the spec's table.
\<close>
fun be32_fields :: "bytes \<Rightarrow> u32 list" where
  "be32_fields (a # b # c # d # rest) =
     (push_bit 24 (ucast a) OR push_bit 16 (ucast b) OR push_bit 8 (ucast c) OR ucast d)
       # be32_fields rest"
| "be32_fields rest = []"

definition ParseBinary_spec :: "bytes \<Rightarrow> nat \<Rightarrow> u32 list" where
  "ParseBinary_spec packet n = be32_fields (take n packet)"

definition ParseMarketDepth_spec :: "bytes \<Rightarrow> u32 list" where
  "ParseMarketDepth_spec packet = be32_fields (take (12 * (length packet div 12)) packet)"

section \<open>The subscription rotation (engine.go, the rotation goroutine of Serve)\<close>

datatype control = Unsubscribe "u32 list" | SubscribeFull "u32 list"

text \<open>The trading windows, on the minute of the day.\<close>
definition withinEquityTradingTime :: "int \<Rightarrow> bool" where
  "withinEquityTradingTime nowTimeValue =
     (9 * 60 + 15 \<le> nowTimeValue \<and> nowTimeValue \<le> 15 * 60 + 30)"

definition withinMCXTradingTime :: "int \<Rightarrow> bool" where
  "withinMCXTradingTime nowTimeValue =
     (9 * 60 \<le> nowTimeValue \<and> nowTimeValue \<le> 23 * 60 + 30)"

definition withinTradingTime :: "u32 list \<Rightarrow> int \<Rightarrow> u32 \<Rightarrow> bool" where
  "withinTradingTime mcxTokens nowTimeValue token =
     (if token \<in> set mcxTokens then withinMCXTradingTime nowTimeValue
      else withinEquityTradingTime nowTimeValue)"

text \<open>
  The body of the inner loop at \<open>start\<close>, with \<open>per = int(instrumentsPerRequest)\<close>,
  in its three parts. First the previous chunk: when \<open>start - per\<close> is not negative,
  \<open>allTokens[prevStart:prevEnd]\<close> is unsubscribed if \<open>isSubscribed\<close> holds, and
  \<open>isSubscribed\<close> is reset. The result is the message sent, if any, and the new value
  of \<open>isSubscribed\<close>.
\<close>
definition unsubscribe_previous ::
  "u32 list \<Rightarrow> int \<Rightarrow> int \<Rightarrow> bool \<Rightarrow> panic + (control list \<times> bool)" where
  "unsubscribe_previous allTokens per start isSubscribed =
     (let prevStart = start - per in
      if prevStart \<ge> 0 then
        (let prevEnd = start in
         if isSubscribed then
           (if prevStart \<le> prevEnd \<and> prevEnd \<le> int (length allTokens)
            then Inr ([Unsubscribe (take (nat (prevEnd - prevStart))
                                      (drop (nat prevStart) allTokens))], False)
            else Inl SliceBounds)
         else Inr ([], False))
      else Inr ([], isSubscribed))"

text \<open>Then the tokens of the chunk from \<open>start\<close> to \<open>end\<close> that are within their trading time.\<close>
definition activeBatchTokens :: "u32 list \<Rightarrow> u32 list \<Rightarrow> int \<Rightarrow> int \<Rightarrow> int \<Rightarrow> panic + u32 list" where
  "activeBatchTokens allTokens mcxTokens per nowTimeValue start =
     (let n = int (length allTokens);
          batchEnd = (if start + per > n then n else start + per)
      in if \<forall>i \<in> set [start..batchEnd - 1]. 0 \<le> i \<and> i < n
         then Inr (filter (withinTradingTime mcxTokens nowTimeValue)
                     (map (\<lambda>i. allTokens ! nat i) [start..batchEnd - 1]))
         else Inl IndexRange)"

text \<open>
  The whole body: the active tokens are subscribed when there are any. The result is the
  control messages sent, in order, and the new value of \<open>isSubscribed\<close>. The errors of
  the two calls are not looked at; the count of active tokens kept for the progress log
  and the sleep that ends the body are left out.
\<close>
definition rotation_body ::
  "u32 list \<Rightarrow> u32 list \<Rightarrow> int \<Rightarrow> int \<Rightarrow> int \<Rightarrow> bool \<Rightarrow> panic + (control list \<times> bool)" where
  "rotation_body allTokens mcxTokens per nowTimeValue start isSubscribed =
     (case unsubscribe_previous allTokens per start isSubscribed of
        Inl p \<Rightarrow> Inl p
      | Inr (sent, subscribed) \<Rightarrow>
         (case activeBatchTokens allTokens mcxTokens per nowTimeValue start of
            Inl p \<Rightarrow> Inl p
          | Inr active \<Rightarrow>
             if length active > 0
             then Inr (sent @ [SubscribeFull active], True)
             else Inr (sent, False)))"

record rotation =
  cycle :: nat
  start :: int
  isSubscribed :: bool

text \<open>
  The two nested loops, step by step. A step is one pass of the inner loop's body, or,
  when \<open>start\<close> has reached the end of \<open>allTokens\<close>, the return to the outer loop, which
  reads the clock again (\<open>clock k\<close> is the minute of the day read at the top of pass
  \<open>k\<close> of the outer loop) and restarts at 0. The loops never end by themselves; the
  first argument is the number of steps taken before the context is cancelled.
\<close>
fun rotate ::
  "nat \<Rightarrow> u32 list \<Rightarrow> u32 list \<Rightarrow> int \<Rightarrow> (nat \<Rightarrow> int) \<Rightarrow> rotation \<Rightarrow>
   control list \<times> panic option" where
  "rotate 0 allTokens mcxTokens per clock st = ([], None)"
| "rotate (Suc k) allTokens mcxTokens per clock st =
     (if start st < int (length allTokens) then
        (case rotation_body allTokens mcxTokens per (clock (cycle st)) (start st)
                (isSubscribed st) of
           Inl p \<Rightarrow> ([], Some p)
         | Inr (sent, subscribed) \<Rightarrow>
            (case rotate k allTokens mcxTokens per clock
                    (st\<lparr>start := start st + per, isSubscribed := subscribed\<rparr>) of
               (rest, r) \<Rightarrow> (sent @ rest, r)))
      else rotate k allTokens mcxTokens per clock (st\<lparr>cycle := cycle st + 1, start := 0\<rparr>))"

text \<open>The state in which a connection starts its rotation.\<close>
definition rotation_start :: rotation where
  "rotation_start = \<lparr>cycle = 0, start = 0, isSubscribed = True\<rparr>"

text \<open>The tokens subscribed and not unsubscribed since, after a sequence of messages.\<close>
fun in_flight :: "control list \<Rightarrow> u32 list \<Rightarrow> u32 list" where
  "in_flight [] live = live"
| "in_flight (SubscribeFull ts # cs) live =
     in_flight cs (live @ filter (\<lambda>t. t \<notin> set live) ts)"
| "in_flight (Unsubscribe ts # cs) live =
     in_flight cs (filter (\<lambda>t. t \<notin> set ts) live)"

section \<open>The rotation settings (engine.go, Serve)\<close>

text \<open>
  The values of a \<open>float64\<close>. No arithmetic is done on them here, so a finite value is
  given by its real number.
\<close>
datatype float64 = Finite real | PosInf | NegInf | NaN

text \<open>
  \<open>strconv.ParseFloat\<close> returns a value and an error or nil; the two results below are
  what it returned for \<open>TA_FEED_TIMEOUT\<close> and \<open>TA_FEED_INSTRUMENT_COUNT\<close>. \<open>Serve\<close>
  logs an error and goes on. The outcome of the stage is either a fatal error or the
  engine going on with its settings and the lines logged.
\<close>
record settings =
  rotationInterval :: float64
  instrumentsPerRequest :: float64

datatype startup = FatalConfigurationError error | Proceeds settings "error list"

definition Serve_settings :: "float64 \<times> error option \<Rightarrow> float64 \<times> error option \<Rightarrow> startup" where
  "Serve_settings timeout_parsed count_parsed =
     (case timeout_parsed of (interval, err1) \<Rightarrow>
      case count_parsed of (perRequest, err2) \<Rightarrow>
        Proceeds \<lparr>rotationInterval = interval, instrumentsPerRequest = perRequest\<rparr>
          ((case err1 of None \<Rightarrow> [] | Some e \<Rightarrow> [e]) @
           (case err2 of None \<Rightarrow> [] | Some e \<Rightarrow> [e])))"

text \<open>
  The conversion \<open>int(f)\<close>, with a 64-bit \<open>int\<close>: the fraction is discarded. When the
  value is not finite or the result does not fit, the result depends on the
  implementation, and the model gives none.
\<close>
definition int_of_float64 :: "float64 \<Rightarrow> int option" where
  "int_of_float64 f =
     (case f of
        Finite x \<Rightarrow>
          (let t = (if x \<ge> 0 then \<lfloor>x\<rfloor> else \<lceil>x\<rceil>)
           in if - 9223372036854775808 \<le> t \<and> t \<le> 9223372036854775807 then Some t else None)
      | PosInf \<Rightarrow> None
      | NegInf \<Rightarrow> None
      | NaN \<Rightarrow> None)"

text \<open>
  What follows the settings in \<open>Serve\<close>, for a number of steps of the rotation: after a
  fatal error nothing would run; otherwise the rotation runs from its start with
  \<open>int(instrumentsPerRequest)\<close> as the batch size.
\<close>
datatype engine_run = NotStarted error | Unspecified | Rotated "control list" "panic option"

definition Serve_rotation ::
  "nat \<Rightarrow> u32 list \<Rightarrow> u32 list \<Rightarrow> (nat \<Rightarrow> int) \<Rightarrow> startup \<Rightarrow> engine_run" where
  "Serve_rotation k allTokens mcxTokens clock outcome =
     (case outcome of
        FatalConfigurationError e \<Rightarrow> NotStarted e
      | Proceeds s logged \<Rightarrow>
         (case int_of_float64 (instrumentsPerRequest s) of
            None \<Rightarrow> Unspecified
          | Some per \<Rightarrow>
             (case rotate k allTokens mcxTokens per clock rotation_start of
                (sent, r) \<Rightarrow> Rotated sent r)))"

section \<open>Waiting for a quote (kite_history.go, addToBatchAndWait)\<close>

record KiteTicker =
  kt_Token :: u32
  kt_TradingSymbol :: string
  kt_LastPrice :: real

text \<open>Durations in milliseconds.\<close>
definition maxWaitTime :: nat where
  "maxWaitTime = 5000"

definition checkInterval :: nat where
  "checkInterval = 100"

text \<open>The test made under each key: the entry exists and its last price is positive.\<close>
definition priced :: "(string \<rightharpoonup> KiteTicker) \<Rightarrow> string \<Rightarrow> bool" where
  "priced TickSymbolMap k =
     (case TickSymbolMap k of None \<Rightarrow> False | Some ticker \<Rightarrow> kt_LastPrice ticker > 0)"

text \<open>
  The polling loop. \<open>cache t\<close> is the content of \<open>TickSymbolMap\<close> when the time elapsed
  since the start is \<open>t\<close>; the time passes in the sleeps only, each of them lasting
  \<open>checkInterval\<close>. The result says whether the data was found, and the time elapsed
  when the loop was left.
\<close>
function wait_loop ::
  "(nat \<Rightarrow> string \<rightharpoonup> KiteTicker) \<Rightarrow> string \<Rightarrow> string \<Rightarrow> nat \<Rightarrow> bool \<times> nat" where
  "wait_loop cache symbolKey tradingSymbol elapsed =
     (if elapsed < maxWaitTime then
        (if priced (cache elapsed) symbolKey then (True, elapsed)
         else if priced (cache elapsed) tradingSymbol then (True, elapsed)
         else wait_loop cache symbolKey tradingSymbol (elapsed + checkInterval))
      else (False, elapsed))"
  by pat_completeness auto
termination
  by (relation "measure (\<lambda>(c, k, s, elapsed). maxWaitTime - elapsed)")
     (auto simp: maxWaitTime_def checkInterval_def)

declare wait_loop.simps [simp del]

datatype wait_error =
    TokensNotLoaded
  | InstrumentNotFound string
  | NoTickerClients
  | SubscribeFailed u32 error
  | WaitTimeout string

text \<open>
  \<open>SubscribeFull\<close> on every client that is not nil, stopping at the first error.
  A client is given by what its \<open>SubscribeFull\<close> returns.
\<close>
fun subscribe_clients :: "(u32 list \<Rightarrow> error option) option list \<Rightarrow> u32 \<Rightarrow> wait_error option" where
  "subscribe_clients [] token = None"
| "subscribe_clients (None # clients) token = subscribe_clients clients token"
| "subscribe_clients (Some client # clients) token =
     (case client [token] of
        Some err \<Rightarrow> Some (SubscribeFailed token err)
      | None \<Rightarrow> subscribe_clients clients token)"

text \<open>
  \<open>addToBatchAndWait\<close>: \<open>None\<close> is the nil error. \<open>BrokerInstrumentTokens\<close> is given by
  the token of each instrument, the only field read here.
\<close>
definition addToBatchAndWait ::
  "(string \<rightharpoonup> u32) option \<Rightarrow> (u32 list \<Rightarrow> error option) option list \<Rightarrow>
   (nat \<Rightarrow> string \<rightharpoonup> KiteTicker) \<Rightarrow> string \<Rightarrow> string \<Rightarrow> wait_error option" where
  "addToBatchAndWait BrokerInstrumentTokens TickerClients cache exchange tradingSymbol =
     (case BrokerInstrumentTokens of
        None \<Rightarrow> Some TokensNotLoaded
      | Some instruments \<Rightarrow>
         (let symbolKey = exchange @ '':'' @ tradingSymbol in
          case instruments symbolKey of
            None \<Rightarrow> Some (InstrumentNotFound symbolKey)
          | Some token \<Rightarrow>
             if length TickerClients = 0 then Some NoTickerClients
             else
               (case subscribe_clients TickerClients token of
                  Some e \<Rightarrow> Some e
                | None \<Rightarrow>
                   if fst (wait_loop cache symbolKey tradingSymbol 0) then None
                   else Some (WaitTimeout symbolKey))))"

text \<open>The entry under a key is absent or has the last price 0.\<close>
definition absent_or_zero :: "(string \<rightharpoonup> KiteTicker) \<Rightarrow> string \<Rightarrow> bool" where
  "absent_or_zero TickSymbolMap k =
     (case TickSymbolMap k of None \<Rightarrow> True | Some ticker \<Rightarrow> kt_LastPrice ticker = 0)"

text \<open>A tick with the last price 0, for the examples.\<close>
definition zero_tick :: KiteTicker where
  "zero_tick = \<lparr>kt_Token = 5, kt_TradingSymbol = ''INFY'', kt_LastPrice = 0\<rparr>"

section \<open>Sample data for the examples\<close>

text \<open>An instrument directory with the one token 5, and packets for the examples.\<close>
definition sample_instrument :: TickerMap where
  "sample_instrument = \<lparr>tm_Token = 5, tm_TradingSymbol = ''INFY'', tm_Exchange = ''NSE'',
     tm_Name = ''INFOSYS'', tm_Expiry = '''', tm_InstrumentType = ''EQ'', tm_Segment = ''NSE'',
     tm_LotSize = 25\<rparr>"

definition sample_directory :: "u32 \<rightharpoonup> TickerMap" where
  "sample_directory = [5 \<mapsto> sample_instrument]"

definition full_header :: bytes where
  "full_header = [0, 0, 0, 5, 0, 0, 0, 100, 0, 0, 0, 3, 0, 0, 0, 4, 0, 0, 0, 5, 0, 0, 0, 6,
     0, 0, 0, 7, 0, 0, 0, 8, 0, 0, 0, 9, 0, 0, 0, 10, 0, 0, 0, 11, 0, 0, 0, 12,
     0, 0, 0, 13, 0, 0, 0, 14, 0, 0, 0, 15, 0, 0, 0, 16]"

definition two_levels :: bytes where
  "two_levels = [0, 0, 0, 10, 0, 0, 0, 200, 0, 0, 0, 1, 0, 0, 0, 20, 0, 0, 0, 201, 0, 0, 0, 2]"

section \<open>Facts about the frame format\<close>

lemma Uint64_PutUint64: "Uint64 (PutUint64 v) = v"
  unfolding Uint64_def PutUint64_def
  apply (rule bit_word_eqI)
  apply (simp add: bit_simps less_diff_conv2 cong: conj_cong)
  apply (case_tac "bit v n")
   apply simp_all
  apply linarith
  done

lemma length_PutUint64 [simp]: "length (PutUint64 v) = 8"
  by (simp add: PutUint64_def)

lemma unat_plus8: "n < 18446744073709551608 \<Longrightarrow> unat (of_nat n + 8 :: u64) = n + 8"
  by (simp add: unat_word_ariths unat_of_nat)

lemma unat_plus8_ge:
  assumes "8 \<le> unat (w + 8 :: u64)"
  shows "unat (w + 8) = unat w + 8"
proof -
  have lt: "unat w < 18446744073709551616"
    using unsigned_less [of w, where ?'a = nat] by simp
  have e: "unat (w + 8) = (unat w + 8) mod 18446744073709551616"
    by (simp add: unat_word_ariths)
  show ?thesis
  proof (cases "unat w + 8 < 18446744073709551616")
    case True
    then show ?thesis using e by simp
  next
    case False
    then have "(unat w + 8) mod 18446744073709551616 = unat w + 8 - 18446744073709551616"
      using lt by (simp add: mod_if)
    then show ?thesis using assms e lt by simp
  qed
qed

lemma frame_step:
  assumes "length c < 18446744073709551608" and "c \<noteq> [] \<or> rest \<noteq> []"
  shows "slen \<lparr>elems = frame c @ rest, spare = sp\<rparr> > 8"
    and "reslice \<lparr>elems = frame c @ rest, spare = sp\<rparr> 0 8 =
           Inr \<lparr>elems = PutUint64 (of_nat (length c)), spare = c @ rest @ sp\<rparr>"
    and "reslice \<lparr>elems = frame c @ rest, spare = sp\<rparr> 8 (length c + 8) =
           Inr \<lparr>elems = c, spare = rest @ sp\<rparr>"
    and "reslice_from \<lparr>elems = frame c @ rest, spare = sp\<rparr> (length c + 8) =
           Inr \<lparr>elems = rest, spare = sp\<rparr>"
  using assms(2) by (auto simp: slen_def reslice_def reslice_from_def scap_def frame_def)

lemma Read_loop_frame:
  assumes "length c < 18446744073709551608" and "c \<noteq> [] \<or> rest \<noteq> []"
  shows "Read_loop d \<lparr>elems = frame c @ rest, spare = sp\<rparr> =
     (case Read_loop d \<lparr>elems = rest, spare = sp\<rparr> of
        (ps, r) \<Rightarrow> (unpacked d c # ps, r))"
  by (subst Read_loop.simps)
     (simp add: frame_step [OF assms] Uint64_PutUint64 unat_plus8 assms(1) unpacked_def)

lemma readMap_loop_frame:
  assumes "length c < 18446744073709551608" and "c \<noteq> [] \<or> rest \<noteq> []"
  shows "readMap_loop d u \<lparr>elems = frame c @ rest, spare = sp\<rparr> m =
     (case d c of
        Inl e \<Rightarrow> Inl (Failed e)
      | Inr packet \<Rightarrow>
         (case u packet of
            Inl e \<Rightarrow> Inl (Failed e)
          | Inr tickerMap \<Rightarrow>
              readMap_loop d u \<lparr>elems = rest, spare = sp\<rparr> (store_all tickerMap m)))"
  by (subst readMap_loop.simps)
     (simp add: frame_step [OF assms] Uint64_PutUint64 unat_plus8 assms(1)
        split: sum.splits)

lemma append_all_eq:
  "append_all compress fl recs = Inr (fl @ concat (map (\<lambda>r. frame (payload compress r)) recs))"
  by (induction recs arbitrary: fl) (simp_all add: appendToFile_def payload_def frame_def Let_def)

lemma frame_not_Nil: "frame c \<noteq> []"
  by (simp add: frame_def PutUint64_def)

lemma Read_loop_short: "slen b \<le> 8 \<Longrightarrow> Read_loop d b = ([], None)"
  by (subst Read_loop.simps) simp

lemma Read_loop_frames:
  assumes "\<forall>c \<in> set cs. length c < 18446744073709551608"
    and "cs \<noteq> [] \<longrightarrow> last cs \<noteq> [] \<or> t \<noteq> []"
  shows "Read_loop d \<lparr>elems = concat (map frame cs) @ t, spare = sp\<rparr> =
     (case Read_loop d \<lparr>elems = t, spare = sp\<rparr> of
        (ps, r) \<Rightarrow> (map (unpacked d) cs @ ps, r))"
  using assms
proof (induction cs)
  case Nil
  then show ?case by (simp split: prod.splits)
next
  case (Cons c cs)
  have ne: "c \<noteq> [] \<or> concat (map frame cs) @ t \<noteq> []"
  proof (cases cs)
    case Nil
    then show ?thesis using Cons.prems(2) by simp
  next
    case (Cons c' cs')
    then show ?thesis by (simp add: frame_not_Nil)
  qed
  have len: "length c < 18446744073709551608" using Cons.prems(1) by simp
  have ih: "Read_loop d \<lparr>elems = concat (map frame cs) @ t, spare = sp\<rparr> =
     (case Read_loop d \<lparr>elems = t, spare = sp\<rparr> of
        (ps, r) \<Rightarrow> (map (unpacked d) cs @ ps, r))"
    using Cons.IH Cons.prems by (cases cs) auto
  show ?case
    using Read_loop_frame [OF len ne, of d sp] ih
    by (simp split: prod.splits)
qed

lemma Read_loop_truncated:
  assumes "8 < slen b" and "slen b - 8 < unat (Uint64 (take 8 (elems b)))"
  shows "Read_loop d b = ([], Some SliceBounds) \<or>
         (\<exists>p. Read_loop d b = ([p], Some SliceBounds))"
proof -
  let ?sz = "Uint64 (take 8 (elems b))"
  have h: "reslice b 0 8 = Inr \<lparr>elems = take 8 (elems b), spare = drop 8 (elems b @ spare b)\<rparr>"
    using assms(1) by (simp add: reslice_def scap_def slen_def)
  show ?thesis
  proof (cases "reslice b 8 (unat (?sz + 8))")
    case (Inl p)
    then have "p = SliceBounds" by (auto simp: reslice_def split: if_splits)
    with Inl show ?thesis
      by (subst Read_loop.simps) (simp add: assms(1) h)
  next
    case (Inr fr)
    then have "8 \<le> unat (?sz + 8)" by (auto simp: reslice_def split: if_splits)
    then have "unat (?sz + 8) = unat ?sz + 8" by (rule unat_plus8_ge)
    then have "\<not> unat (?sz + 8) \<le> slen b" using assms by simp
    then have "reslice_from b (unat (?sz + 8)) = Inl SliceBounds"
      by (simp add: reslice_from_def)
    with Inr show ?thesis
      by (subst Read_loop.simps) (simp add: assms(1) h)
  qed
qed

lemma readMap_loop_truncated:
  assumes "8 < slen b" and "slen b - 8 < unat (Uint64 (take 8 (elems b)))"
  shows "isl (readMap_loop d u b m)"
proof -
  let ?sz = "Uint64 (take 8 (elems b))"
  have h: "reslice b 0 8 = Inr \<lparr>elems = take 8 (elems b), spare = drop 8 (elems b @ spare b)\<rparr>"
    using assms(1) by (simp add: reslice_def scap_def slen_def)
  show ?thesis
  proof (cases "reslice b 8 (unat (?sz + 8))")
    case (Inl p)
    then show ?thesis
      by (subst readMap_loop.simps) (simp add: assms(1) h)
  next
    case (Inr fr)
    then have "8 \<le> unat (?sz + 8)" by (auto simp: reslice_def split: if_splits)
    then have "unat (?sz + 8) = unat ?sz + 8" by (rule unat_plus8_ge)
    then have "\<not> unat (?sz + 8) \<le> slen b" using assms by simp
    then have "reslice_from b (unat (?sz + 8)) = Inl SliceBounds"
      by (simp add: reslice_from_def)
    with Inr show ?thesis
      by (subst readMap_loop.simps)
         (simp add: assms(1) h split: sum.splits)
  qed
qed

lemma readMap_loop_frames_truncated:
  assumes "\<forall>c \<in> set cs. length c < 18446744073709551608"
    and "8 < length t" and "length t - 8 < unat (Uint64 (take 8 t))"
  shows "isl (readMap_loop d u \<lparr>elems = concat (map frame cs) @ t, spare = sp\<rparr> m)"
  using assms(1)
proof (induction cs arbitrary: m)
  case Nil
  show ?case using readMap_loop_truncated [of "\<lparr>elems = t, spare = sp\<rparr>" d u m] assms(2,3)
    by (simp add: slen_def)
next
  case (Cons c cs)
  have ne: "c \<noteq> [] \<or> concat (map frame cs) @ t \<noteq> []" using assms(2) by auto
  have len: "length c < 18446744073709551608" using Cons.prems by simp
  show ?case
    using readMap_loop_frame [OF len ne, of d u sp m] Cons.IH Cons.prems
    by (simp split: sum.splits)
qed


lemma readMap_loop_short: "slen b \<le> 8 \<Longrightarrow> readMap_loop d u b m = Inr m"
  by (subst readMap_loop.simps) simp

lemma store_all_append: "store_all (xs @ ys) m = store_all ys (store_all xs m)"
  by (simp add: store_all_def)

lemma store_all_Nil: "store_all [] m = m"
  by (simp add: store_all_def)

lemma readMap_loop_frames:
  assumes "\<forall>c \<in> set cs. length c < 18446744073709551608 \<and> d c = Inr (pk c) \<and> u (pk c) = Inr (tm c)"
    and "cs \<noteq> [] \<longrightarrow> last cs \<noteq> [] \<or> t \<noteq> []"
  shows "readMap_loop d u \<lparr>elems = concat (map frame cs) @ t, spare = sp\<rparr> m =
           readMap_loop d u \<lparr>elems = t, spare = sp\<rparr> (store_all (concat (map tm cs)) m)"
  using assms
proof (induction cs arbitrary: m)
  case Nil
  then show ?case by (simp add: store_all_Nil)
next
  case (Cons c cs)
  have ne: "c \<noteq> [] \<or> concat (map frame cs) @ t \<noteq> []"
  proof (cases cs)
    case Nil
    then show ?thesis using Cons.prems(2) by simp
  next
    case (Cons c' cs')
    then show ?thesis by (simp add: frame_not_Nil)
  qed
  have len: "length c < 18446744073709551608" and dc: "d c = Inr (pk c)"
    and uc: "u (pk c) = Inr (tm c)"
    using Cons.prems(1) by simp_all
  have p1: "\<forall>c \<in> set cs. length c < 18446744073709551608 \<and> d c = Inr (pk c) \<and> u (pk c) = Inr (tm c)"
    using Cons.prems(1) by simp
  have p2: "cs \<noteq> [] \<longrightarrow> last cs \<noteq> [] \<or> t \<noteq> []"
    using Cons.prems(2) by (cases cs) simp_all
  have ih: "readMap_loop d u \<lparr>elems = concat (map frame cs) @ t, spare = sp\<rparr> (store_all (tm c) m) =
            readMap_loop d u \<lparr>elems = t, spare = sp\<rparr>
              (store_all (concat (map tm cs)) (store_all (tm c) m))"
    by (rule Cons.IH [OF p1 p2])
  show ?case
    using readMap_loop_frame [OF len ne, of d u sp m] ih
    by (simp add: dc uc store_all_append)
qed

lemma slen_frame_Nil: "slen \<lparr>elems = frame [], spare = sp\<rparr> \<le> 8"
  by (simp add: slen_def frame_def)

lemma reached_cases:
  "cs = [] \<or> (cs \<noteq> [] \<and> last cs \<noteq> [] \<and> reached cs = cs) \<or>
   (cs = butlast cs @ [[]] \<and> reached cs = butlast cs)"
proof (cases "cs = []")
  case True
  then show ?thesis by simp
next
  case False
  show ?thesis
  proof (cases "last cs = []")
    case True
    have "cs = butlast cs @ [last cs]" using False by simp
    then have "cs = butlast cs @ [[]]" using True by simp
    then show ?thesis using False True by (simp add: reached_def)
  next
    case False
    then show ?thesis using \<open>cs \<noteq> []\<close> by (simp add: reached_def)
  qed
qed

lemma Read_loop_reached:
  assumes "\<forall>c \<in> set cs. length c < 18446744073709551608"
  shows "Read_loop d \<lparr>elems = concat (map frame cs), spare = sp\<rparr> =
           (map (unpacked d) (reached cs), None)"
proof -
  consider "cs = []" | "cs \<noteq> []" "last cs \<noteq> []" "reached cs = cs"
    | "cs = butlast cs @ [[]]" "reached cs = butlast cs"
    using reached_cases [of cs] by blast
  then show ?thesis
  proof cases
    case 1
    then show ?thesis by (simp add: Read_loop_short slen_def reached_def)
  next
    case 2
    have ne: "cs \<noteq> [] \<longrightarrow> last cs \<noteq> [] \<or> ([]::bytes) \<noteq> []" using 2 by simp
    show ?thesis
      using Read_loop_frames [OF assms ne, of d sp] 2(3)
      by (simp add: Read_loop_short slen_def)
  next
    case 3
    let ?bs = "butlast cs"
    have b: "\<forall>c \<in> set ?bs. length c < 18446744073709551608"
      using assms by (auto dest: in_set_butlastD)
    have ne: "?bs \<noteq> [] \<longrightarrow> last ?bs \<noteq> [] \<or> frame [] \<noteq> []"
      by (simp add: frame_not_Nil)
    have "concat (map frame cs) = concat (map frame (?bs @ [[]]))"
      by (rule arg_cong [OF 3(1)])
    then have e: "concat (map frame cs) = concat (map frame ?bs) @ frame []"
      by simp
    show ?thesis
      using Read_loop_frames [OF b ne, of d sp] 3(2)
      by (simp add: e Read_loop_short slen_frame_Nil)
  qed
qed

lemma readMap_loop_reached:
  assumes "\<forall>c \<in> set cs. length c < 18446744073709551608 \<and> d c = Inr (pk c) \<and> u (pk c) = Inr (tm c)"
  shows "readMap_loop d u \<lparr>elems = concat (map frame cs), spare = sp\<rparr> m =
           Inr (store_all (concat (map tm (reached cs))) m)"
proof -
  consider "cs = []" | "cs \<noteq> []" "last cs \<noteq> []" "reached cs = cs"
    | "cs = butlast cs @ [[]]" "reached cs = butlast cs"
    using reached_cases [of cs] by blast
  then show ?thesis
  proof cases
    case 1
    then show ?thesis by (simp add: readMap_loop_short slen_def reached_def store_all_Nil)
  next
    case 2
    have ne: "cs \<noteq> [] \<longrightarrow> last cs \<noteq> [] \<or> ([]::bytes) \<noteq> []" using 2 by simp
    show ?thesis
      using readMap_loop_frames [OF assms ne, of sp m] 2(3)
      by (simp add: readMap_loop_short slen_def)
  next
    case 3
    let ?bs = "butlast cs"
    have b: "\<forall>c \<in> set ?bs. length c < 18446744073709551608 \<and> d c = Inr (pk c) \<and> u (pk c) = Inr (tm c)"
      using assms by (auto dest: in_set_butlastD)
    have ne: "?bs \<noteq> [] \<longrightarrow> last ?bs \<noteq> [] \<or> frame [] \<noteq> []"
      by (simp add: frame_not_Nil)
    have "concat (map frame cs) = concat (map frame (?bs @ [[]]))"
      by (rule arg_cong [OF 3(1)])
    then have e: "concat (map frame cs) = concat (map frame ?bs) @ frame []"
      by simp
    show ?thesis
      using readMap_loop_frames [OF b ne, of sp m] 3(2)
      by (simp add: e readMap_loop_short slen_frame_Nil)
  qed
qed

text \<open>The map file: what \<open>saveFile\<close> writes is one frame, and \<open>readMap\<close> reads it back.\<close>
lemma saveFile_frame: "saveFile compress IoOk data = Inr (frame (payload compress data))"
  by (simp add: saveFile_def frame_def payload_def Let_def)

lemma readMap_saveFile:
  assumes "lossless compress decompress data" and "compress data \<noteq> Inr []"
    and "unmarshal data = Inr entries"
  shows "readMap decompress unmarshal
           (Inr \<lparr>elems = frame (payload compress data), spare = sp\<rparr>) =
         Inr (store_all entries Map.empty)"
proof -
  let ?c = "payload compress data"
  have d: "decompress ?c = Inr data" and l: "length ?c < 18446744073709551608"
    and n: "?c \<noteq> []"
    using assms(1,2) by (auto simp: lossless_def payload_def split: sum.splits)
  have h: "\<forall>c \<in> set [?c]. length c < 18446744073709551608 \<and>
             decompress c = Inr ((\<lambda>c. data) c) \<and> unmarshal ((\<lambda>c. data) c) = Inr ((\<lambda>c. entries) c)"
    using d l assms(3) by simp
  have r: "reached [?c] = [?c]" using n by (simp add: reached_def)
  have "readMap_loop decompress unmarshal \<lparr>elems = concat (map frame [?c]), spare = sp\<rparr> Map.empty =
          Inr (store_all (concat (map (\<lambda>c. entries) (reached [?c]))) Map.empty)"
    using readMap_loop_reached [where cs = "[?c]" and d = decompress and u = unmarshal
        and pk = "\<lambda>c. data" and tm = "\<lambda>c. entries" and sp = sp and m = Map.empty] h
    by simp
  then show ?thesis by (simp add: readMap_def r)
qed

text \<open>
  What the loop of \<open>Read\<close> hands back for the records written: all of them, or all
  but a last record that is empty.
\<close>
lemma read_back:
  assumes "\<forall>r \<in> set recs. lossless compress decompress r"
    and "\<forall>r \<in> set recs. compress r = Inr [] \<longrightarrow> r = []"
  shows "map (unpacked decompress) (reached (map (payload compress) recs)) = recs \<or>
         (recs = map (unpacked decompress) (reached (map (payload compress) recs)) @ [[]])"
proof -
  let ?cs = "map (payload compress) recs"
  have rt: "\<forall>r \<in> set recs. unpacked decompress (payload compress r) = r"
    using assms(1) by (auto simp: lossless_def payload_def unpacked_def split: sum.splits)
  have all: "map (unpacked decompress) ?cs = recs"
    using rt by (induction recs) auto
  consider "?cs = []" | "?cs \<noteq> []" "last ?cs \<noteq> []" "reached ?cs = ?cs"
    | "?cs = butlast ?cs @ [[]]" "reached ?cs = butlast ?cs"
    using reached_cases [of ?cs] by blast
  then show ?thesis
  proof cases
    case 1
    then show ?thesis by (simp add: reached_def)
  next
    case 2
    then show ?thesis using all by simp
  next
    case 3
    then have ne: "recs \<noteq> []" by auto
    have "last ?cs = []" using 3(1) by (metis last_snoc)
    then have p: "payload compress (last recs) = []" using ne by (simp add: last_map)
    have m: "last recs \<in> set recs" using ne by simp
    then have "lossless compress decompress (last recs)" using assms(1) by blast
    then have "compress (last recs) = Inr []"
      using p by (auto simp: lossless_def payload_def split: sum.splits)
    then have le: "last recs = []" using assms(2) m by blast
    have "map (unpacked decompress) (butlast ?cs) = butlast (map (unpacked decompress) ?cs)"
      by (simp add: map_butlast)
    then have "map (unpacked decompress) (reached ?cs) = butlast recs"
      using 3(2) all by simp
    moreover have "recs = butlast recs @ [[]]" using ne le by (metis append_butlast_last_id)
    ultimately show ?thesis by simp
  qed
qed

text \<open>
  Claim C5. For every sequence of records that the codec keeps, the codec giving the
  empty payload to the empty record only, \<open>appendToFile\<close> writes the sequence of
  their frames, and the frame loop of \<open>Read\<close> ends without a panic, whatever the spare
  capacity of the buffer, having handed back records with the same field values in the
  same order, for every parser under which the empty record has no field value; the
  records that are not empty come back all, in order. The loop of \<open>readMap\<close>, on
  records that unmarshal (the empty one to no entry), returns the entries of all the
  records, stored in their order.
\<close>
theorem field_values_roundtrip:
  assumes "\<forall>r \<in> set recs. lossless compress decompress r"
    and "\<forall>r \<in> set recs. compress r = Inr [] \<longrightarrow> r = []"
    and "parse [] = []"
  shows "append_all compress [] recs = Inr (concat (map (\<lambda>r. frame (payload compress r)) recs)) \<and>
         snd (Read_loop decompress
           \<lparr>elems = concat (map (\<lambda>r. frame (payload compress r)) recs), spare = sp\<rparr>) = None \<and>
         field_values parse (fst (Read_loop decompress
           \<lparr>elems = concat (map (\<lambda>r. frame (payload compress r)) recs), spare = sp\<rparr>)) =
         field_values parse recs \<and>
         filter (\<lambda>r. r \<noteq> []) (fst (Read_loop decompress
           \<lparr>elems = concat (map (\<lambda>r. frame (payload compress r)) recs), spare = sp\<rparr>)) =
         filter (\<lambda>r. r \<noteq> []) recs \<and>
         (\<forall>unmarshal entries.
            (\<forall>r \<in> set recs. unmarshal r = Inr (entries r)) \<and> entries [] = [] \<longrightarrow>
            readMap_loop decompress unmarshal
              \<lparr>elems = concat (map (\<lambda>r. frame (payload compress r)) recs), spare = sp\<rparr>
              Map.empty =
            Inr (store_all (concat (map entries recs)) Map.empty))"
proof -
  let ?cs = "map (payload compress) recs"
  let ?got = "map (unpacked decompress) (reached ?cs)"
  let ?b = "\<lparr>elems = concat (map (\<lambda>r. frame (payload compress r)) recs), spare = sp\<rparr>"
  have len: "\<forall>c \<in> set ?cs. length c < 18446744073709551608"
    using assms(1) by (auto simp: lossless_def payload_def split: sum.splits)
  have fr: "concat (map (\<lambda>r. frame (payload compress r)) recs) = concat (map frame ?cs)"
    by (simp add: comp_def)
  have rd: "Read_loop decompress ?b = (?got, None)"
    unfolding fr by (rule Read_loop_reached [OF len])
  have bk: "?got = recs \<or> recs = ?got @ [[]]"
    by (rule read_back [OF assms(1,2)])
  have fv: "field_values parse ?got = field_values parse recs"
  proof -
    have "field_values parse (?got @ [[]]) = field_values parse ?got"
      by (simp add: field_values_def assms(3))
    then show ?thesis using bk by metis
  qed
  have fl: "filter (\<lambda>r. r \<noteq> []) ?got = filter (\<lambda>r. r \<noteq> []) recs"
  proof -
    have "filter (\<lambda>r. r \<noteq> []) (?got @ [[]]) = filter (\<lambda>r. r \<noteq> []) ?got"
      by simp
    then show ?thesis using bk by metis
  qed
  have rm: "readMap_loop decompress unmarshal ?b Map.empty =
            Inr (store_all (concat (map entries recs)) Map.empty)"
    if u: "\<forall>r \<in> set recs. unmarshal r = Inr (entries r)" and z: "entries [] = []"
    for unmarshal entries
  proof -
    have rt: "\<forall>r \<in> set recs. decompress (payload compress r) = Inr r"
      using assms(1) by (auto simp: lossless_def payload_def split: sum.splits)
    have h: "\<forall>c \<in> set ?cs. length c < 18446744073709551608 \<and>
               decompress c = Inr (unpacked decompress c) \<and>
               unmarshal (unpacked decompress c) = Inr (entries (unpacked decompress c))"
      using len rt u by (auto simp: unpacked_def)
    have r1: "readMap_loop decompress unmarshal ?b Map.empty =
          Inr (store_all (concat (map (\<lambda>c. entries (unpacked decompress c)) (reached ?cs)))
                 Map.empty)"
      unfolding fr by (rule readMap_loop_reached [OF h])
    have "concat (map entries (?got @ [[]])) = concat (map entries ?got)"
      by (simp add: z)
    then have "concat (map entries ?got) = concat (map entries recs)"
      using bk by metis
    then have "concat (map (\<lambda>c. entries (unpacked decompress c)) (reached ?cs)) =
               concat (map entries recs)"
      by (simp add: comp_def)
    then show ?thesis using r1 by simp
  qed
  show ?thesis
    using append_all_eq [of compress "[]" recs] rd fv fl rm by simp
qed

text \<open>
  The theorem at two records of one field each followed by an empty record, with the
  storing codec and fields of four bytes.
\<close>
theorem field_values_roundtrip_witness:
  "be32_fields [] = [] \<and>
   append_all stored [] [[0, 0, 0, 5], [0, 0, 0, 7], []] =
     Inr [0, 0, 0, 0, 0, 0, 0, 4, 0, 0, 0, 5, 0, 0, 0, 0, 0, 0, 0, 4, 0, 0, 0, 7,
          0, 0, 0, 0, 0, 0, 0, 0] \<and>
   snd (Read_loop stored
     \<lparr>elems = [0, 0, 0, 0, 0, 0, 0, 4, 0, 0, 0, 5, 0, 0, 0, 0, 0, 0, 0, 4, 0, 0, 0, 7,
                0, 0, 0, 0, 0, 0, 0, 0], spare = []\<rparr>) = None \<and>
   field_values be32_fields (fst (Read_loop stored
     \<lparr>elems = [0, 0, 0, 0, 0, 0, 0, 4, 0, 0, 0, 5, 0, 0, 0, 0, 0, 0, 0, 4, 0, 0, 0, 7,
                0, 0, 0, 0, 0, 0, 0, 0], spare = []\<rparr>)) = [5, 7] \<and>
   field_values be32_fields [[0, 0, 0, 5], [0, 0, 0, 7], []] = [5, 7]"
proof -
  let ?recs = "[[0, 0, 0, 5], [0, 0, 0, 7], [] :: bytes]"
  have h1: "\<forall>r \<in> set ?recs. lossless stored stored r"
    by (simp add: lossless_def stored_def)
  have h2: "\<forall>r \<in> set ?recs. stored r = Inr [] \<longrightarrow> r = []"
    by (simp add: stored_def)
  have h3: "be32_fields [] = []" by simp
  have fr: "concat (map (\<lambda>r. frame (payload stored r)) ?recs) =
      [0, 0, 0, 0, 0, 0, 0, 4, 0, 0, 0, 5, 0, 0, 0, 0, 0, 0, 0, 4, 0, 0, 0, 7,
       0, 0, 0, 0, 0, 0, 0, 0]"
    by (simp add: frame_def payload_def stored_def PutUint64_def)
  have fv: "field_values be32_fields ?recs = [5, 7]"
    by (simp add: field_values_def)
  have "append_all stored [] ?recs =
     Inr [0, 0, 0, 0, 0, 0, 0, 4, 0, 0, 0, 5, 0, 0, 0, 0, 0, 0, 0, 4, 0, 0, 0, 7,
          0, 0, 0, 0, 0, 0, 0, 0] \<and>
   snd (Read_loop stored
     \<lparr>elems = [0, 0, 0, 0, 0, 0, 0, 4, 0, 0, 0, 5, 0, 0, 0, 0, 0, 0, 0, 4, 0, 0, 0, 7,
                0, 0, 0, 0, 0, 0, 0, 0], spare = []\<rparr>) = None \<and>
   field_values be32_fields (fst (Read_loop stored
     \<lparr>elems = [0, 0, 0, 0, 0, 0, 0, 4, 0, 0, 0, 5, 0, 0, 0, 0, 0, 0, 0, 4, 0, 0, 0, 7,
                0, 0, 0, 0, 0, 0, 0, 0], spare = []\<rparr>)) = field_values be32_fields ?recs"
    using field_values_roundtrip [where parse = be32_fields and compress = stored
        and decompress = stored and sp = "[]", OF h1 h2 h3]
    unfolding fr by blast
  then show ?thesis using h3 fv by simp
qed

text \<open>
  The one record that is not handed back: an empty record at the end of the file, which
  a codec that emits nothing for it leaves as the eight bytes of the length 0.
\<close>
lemma trailing_empty_record_not_read:
  "append_all stored [] [[]] = Inr [0, 0, 0, 0, 0, 0, 0, 0] \<and>
   Read_loop stored \<lparr>elems = [0, 0, 0, 0, 0, 0, 0, 0], spare = []\<rparr> = ([], None)"
  by (simp add: appendToFile_def stored_def PutUint64_def slen_def Read_loop.simps)

text \<open>
  Claim C2. A file of complete frames followed by a frame whose declared length exceeds
  the bytes that follow its length prefix: the loop of \<open>Read\<close> hands over the complete
  frames and then panics on a slice bound, and the loop of \<open>readMap\<close> returns a
  failure instead of the map. Neither ends as at the end of the file.
\<close>
theorem truncated_trailing_frame_aborts:
  assumes "\<forall>c \<in> set cs. length c < 18446744073709551608"
    and "8 < length t" and "length t - 8 < unat (Uint64 (take 8 t))"
  shows "snd (Read_loop d \<lparr>elems = concat (map frame cs) @ t, spare = sp\<rparr>) = Some SliceBounds \<and>
         take (length cs) (fst (Read_loop d \<lparr>elems = concat (map frame cs) @ t, spare = sp\<rparr>)) =
           map (unpacked d) cs \<and>
         isl (readMap_loop d u \<lparr>elems = concat (map frame cs) @ t, spare = sp\<rparr> m)"
proof -
  have ne: "cs \<noteq> [] \<longrightarrow> last cs \<noteq> [] \<or> t \<noteq> []" using assms(2) by auto
  have tr: "Read_loop d \<lparr>elems = t, spare = sp\<rparr> = ([], Some SliceBounds) \<or>
         (\<exists>p. Read_loop d \<lparr>elems = t, spare = sp\<rparr> = ([p], Some SliceBounds))"
    using Read_loop_truncated [of "\<lparr>elems = t, spare = sp\<rparr>" d] assms(2,3)
    by (simp add: slen_def)
  have "snd (Read_loop d \<lparr>elems = concat (map frame cs) @ t, spare = sp\<rparr>) = Some SliceBounds \<and>
         take (length cs) (fst (Read_loop d \<lparr>elems = concat (map frame cs) @ t, spare = sp\<rparr>)) =
           map (unpacked d) cs"
    using tr Read_loop_frames [OF assms(1) ne, of d sp] by auto
  then show ?thesis
    using readMap_loop_frames_truncated [OF assms, of d u sp m] by simp
qed

text \<open>The theorem at one complete frame followed by a frame that declares 5 bytes and has 2.\<close>
theorem truncated_trailing_frame_aborts_witness:
  "8 < length [0, 0, 0, 0, 0, 0, 0, 5, 9, 9 :: byte] \<and>
   length [0, 0, 0, 0, 0, 0, 0, 5, 9, 9 :: byte] - 8
     < unat (Uint64 (take 8 [0, 0, 0, 0, 0, 0, 0, 5, 9, 9])) \<and>
   snd (Read_loop stored
     \<lparr>elems = [0, 0, 0, 0, 0, 0, 0, 3, 1, 2, 3, 0, 0, 0, 0, 0, 0, 0, 5, 9, 9], spare = []\<rparr>)
     = Some SliceBounds \<and>
   take 1 (fst (Read_loop stored
     \<lparr>elems = [0, 0, 0, 0, 0, 0, 0, 3, 1, 2, 3, 0, 0, 0, 0, 0, 0, 0, 5, 9, 9], spare = []\<rparr>))
     = [[1, 2, 3]] \<and>
   isl (readMap_loop stored (\<lambda>p. Inr [])
     \<lparr>elems = [0, 0, 0, 0, 0, 0, 0, 3, 1, 2, 3, 0, 0, 0, 0, 0, 0, 0, 5, 9, 9], spare = []\<rparr>
     Map.empty)"
proof -
  have h1: "\<forall>c \<in> set [[1, 2, 3 :: byte]]. length c < 18446744073709551608" by simp
  have h2: "8 < length [0, 0, 0, 0, 0, 0, 0, 5, 9, 9 :: byte]" by simp
  have h3: "length [0, 0, 0, 0, 0, 0, 0, 5, 9, 9 :: byte] - 8
     < unat (Uint64 (take 8 [0, 0, 0, 0, 0, 0, 0, 5, 9, 9]))"
    by (simp add: Uint64_def)
  have fr: "concat (map frame [[1, 2, 3 :: byte]]) @ [0, 0, 0, 0, 0, 0, 0, 5, 9, 9] =
     [0, 0, 0, 0, 0, 0, 0, 3, 1, 2, 3, 0, 0, 0, 0, 0, 0, 0, 5, 9, 9]"
    by (simp add: frame_def PutUint64_def)
  have un: "map (unpacked stored) [[1, 2, 3 :: byte]] = [[1, 2, 3]]"
    by (simp add: unpacked_def stored_def)
  have ln: "length [[1, 2, 3 :: byte]] = 1" by simp
  have "snd (Read_loop stored
     \<lparr>elems = [0, 0, 0, 0, 0, 0, 0, 3, 1, 2, 3, 0, 0, 0, 0, 0, 0, 0, 5, 9, 9], spare = []\<rparr>)
     = Some SliceBounds \<and>
   take 1 (fst (Read_loop stored
     \<lparr>elems = [0, 0, 0, 0, 0, 0, 0, 3, 1, 2, 3, 0, 0, 0, 0, 0, 0, 0, 5, 9, 9], spare = []\<rparr>))
     = [[1, 2, 3]] \<and>
   isl (readMap_loop stored (\<lambda>p. Inr [])
     \<lparr>elems = [0, 0, 0, 0, 0, 0, 0, 3, 1, 2, 3, 0, 0, 0, 0, 0, 0, 0, 5, 9, 9], spare = []\<rparr>
     Map.empty)"
    using truncated_trailing_frame_aborts [OF h1 h2 h3, of stored "[]" "\<lambda>p. Inr []" Map.empty]
    unfolding fr un ln .
  then show ?thesis using h2 h3 by blast
qed

section \<open>The decoder\<close>

lemma length_depth_groups: "length (depth_groups vs) = length vs div 3"
  by (induction vs rule: depth_groups.induct) simp_all

lemma depth_loop_groups:
  "length vs mod 3 = 0 \<Longrightarrow>
   depth_loop L vs d =
     Inr \<lparr>Buy = Buy d @ take (L - length (Buy d)) (depth_groups vs),
          Sell = Sell d @ drop (L - length (Buy d)) (depth_groups vs)\<rparr>"
proof (induction L vs d rule: depth_loop.induct)
  case (1 lobDepth d)
  then show ?case by simp
next
  case (2 lobDepth qty d)
  then show ?case by simp
next
  case (3 lobDepth qty price d)
  then show ?case by simp
next
  case (4 lobDepth qty price orders "values" d)
  then have m: "length values mod 3 = 0" by simp
  show ?case
  proof (cases "length (Buy d) < lobDepth")
    case True
    then have k: "lobDepth - length (Buy d) = Suc (lobDepth - Suc (length (Buy d)))"
      by arith
    show ?thesis using True 4(1) [OF m] by (simp add: k)
  next
    case False
    then show ?thesis using 4(1) [OF m] by simp
  qed
qed

lemma depth_assign_header: "Depth (fst (assign_header vs)) = \<lparr>Buy = [], Sell = []\<rparr>"
  by (simp add: assign_header_def new_ticker_def Let_def)

lemma decode_packet_short:
  "slen packet \<le> 64 \<Longrightarrow>
   decode_packet pb pmd packet =
     (snd (assign_header (pb (elems packet) (slen packet))),
      Inr (fst (assign_header (pb (elems packet) (slen packet)))))"
  by (simp add: decode_packet_def Let_def min_def split: prod.splits)

lemma decode_packet_long:
  assumes "64 < slen packet" and "length (pmd (drop 64 (elems packet))) mod 3 = 0"
  shows "decode_packet pb pmd packet =
     (snd (assign_header (pb (elems packet) 64)),
      Inr ((fst (assign_header (pb (elems packet) 64)))
        \<lparr>Depth := \<lparr>Buy = take (length (depth_groups (pmd (drop 64 (elems packet)))) div 2)
                             (depth_groups (pmd (drop 64 (elems packet)))),
                    Sell = drop (length (depth_groups (pmd (drop 64 (elems packet)))) div 2)
                             (depth_groups (pmd (drop 64 (elems packet))))\<rparr>\<rparr>))"
proof -
  have r: "reslice_from packet 64 = Inr \<lparr>elems = drop 64 (elems packet), spare = spare packet\<rparr>"
    using assms(1) by (simp add: reslice_from_def)
  have d: "length (pmd (drop 64 (elems packet))) div 6 =
           length (depth_groups (pmd (drop 64 (elems packet)))) div 2"
    by (simp add: length_depth_groups div_mult2_eq)
  obtain tk lg where ah: "assign_header (pb (elems packet) 64) = (tk, lg)"
    by force
  have e: "Depth tk = \<lparr>Buy = [], Sell = []\<rparr>"
    using depth_assign_header [of "pb (elems packet) 64"] by (simp add: ah)
  show ?thesis
    using assms(1)
    by (simp add: decode_packet_def Let_def r d depth_loop_groups [OF assms(2)] ah e)
qed

lemma process_packet_known:
  "decode_packet pb pmd packet = (lg, Inr t) \<Longrightarrow> D (Token t) = Some inst \<Longrightarrow>
   process_packet D pb pmd packet = (lg, Inr (t\<lparr>LotSize := tm_LotSize inst\<rparr>))"
  by (simp add: process_packet_def enrich_def)

lemma process_packet_unknown:
  "decode_packet pb pmd packet = (lg, Inr t) \<Longrightarrow> D (Token t) = None \<Longrightarrow>
   process_packet D pb pmd packet = (lg, Inl NilDereference)"
  by (simp add: process_packet_def enrich_def)

lemma full_header_fields:
  "ParseBinary_spec full_header 64 = [5, 100, 3, 4, 5, 6, 7, 8, 9, 10, 11, 12, 13, 14, 15, 16]"
  by (simp add: ParseBinary_spec_def full_header_def)

lemma length_full_header: "length full_header = 64"
  by (simp add: full_header_def)

text \<open>
  Claim C9. A packet of exactly 64 bytes is decoded to a ticker whose depth has no buy
  and no sell order; when the token is in the directory, the tick of the packet is that
  ticker with its lot size set.
\<close>
theorem header_only_packet_has_empty_depth:
  assumes "slen packet = 64"
  shows "\<exists>t. snd (decode_packet ParseBinary ParseMarketDepth packet) = Inr t \<and>
           Buy (Depth t) = [] \<and> Sell (Depth t) = [] \<and>
           (\<forall>D inst. D (Token t) = Some inst \<longrightarrow>
              snd (process_packet D ParseBinary ParseMarketDepth packet) =
                Inr (t\<lparr>LotSize := tm_LotSize inst\<rparr>))"
proof -
  let ?t = "fst (assign_header (ParseBinary (elems packet) (slen packet)))"
  let ?lg = "snd (assign_header (ParseBinary (elems packet) (slen packet)))"
  have d: "decode_packet ParseBinary ParseMarketDepth packet = (?lg, Inr ?t)"
    using assms by (simp add: decode_packet_short)
  have "Buy (Depth ?t) = [] \<and> Sell (Depth ?t) = []"
    by (simp add: depth_assign_header)
  then show ?thesis
    using d process_packet_known [OF d] by auto
qed

text \<open>The theorem at a packet of 64 bytes, parsed as sixteen 4-byte fields.\<close>
theorem header_only_packet_has_empty_depth_witness:
  "slen \<lparr>elems = full_header, spare = []\<rparr> = 64 \<and>
   (\<exists>t. snd (decode_packet ParseBinary_spec ParseMarketDepth_spec
              \<lparr>elems = full_header, spare = []\<rparr>) = Inr t \<and>
        Buy (Depth t) = [] \<and> Sell (Depth t) = [] \<and> Token t = 5)"
proof -
  have h: "slen \<lparr>elems = full_header, spare = []\<rparr> = 64"
    by (simp add: slen_def length_full_header)
  have tk: "Token (fst (assign_header (ParseBinary_spec full_header 64))) = 5"
    by (simp add: full_header_fields assign_header_def new_ticker_def)
  have d: "decode_packet ParseBinary_spec ParseMarketDepth_spec \<lparr>elems = full_header, spare = []\<rparr> =
     (snd (assign_header (ParseBinary_spec full_header 64)),
      Inr (fst (assign_header (ParseBinary_spec full_header 64))))"
    using decode_packet_short [of "\<lparr>elems = full_header, spare = []\<rparr>"] h
    by (simp add: slen_def)
  show ?thesis
    using header_only_packet_has_empty_depth
      [OF h, of ParseBinary_spec ParseMarketDepth_spec] h tk d by auto
qed

lemma two_levels_values:
  "ParseMarketDepth_spec two_levels = [10, 200, 1, 20, 201, 2]"
  by (simp add: ParseMarketDepth_spec_def two_levels_def)

text \<open>
  Claim C8. For a packet longer than 64 bytes whose depth values come in whole groups of
  three, the groups are (quantity, price, orders) in the order of the payload; the first
  half of them (the number of groups divided by two, rounded down) is the buy side and
  the others are the sell side, each in the order of the payload.
\<close>
theorem depth_ladder_split:
  assumes "64 < slen packet"
    and "length (ParseMarketDepth (drop 64 (elems packet))) mod 3 = 0"
  shows "\<exists>t. snd (decode_packet ParseBinary ParseMarketDepth packet) = Inr t \<and>
           Buy (Depth t) =
             take (length (depth_groups (ParseMarketDepth (drop 64 (elems packet)))) div 2)
               (depth_groups (ParseMarketDepth (drop 64 (elems packet)))) \<and>
           Sell (Depth t) =
             drop (length (depth_groups (ParseMarketDepth (drop 64 (elems packet)))) div 2)
               (depth_groups (ParseMarketDepth (drop 64 (elems packet)))) \<and>
           (\<forall>D inst. D (Token t) = Some inst \<longrightarrow>
              snd (process_packet D ParseBinary ParseMarketDepth packet) =
                Inr (t\<lparr>LotSize := tm_LotSize inst\<rparr>))"
proof -
  let ?g = "depth_groups (ParseMarketDepth (drop 64 (elems packet)))"
  let ?t = "(fst (assign_header (ParseBinary (elems packet) 64)))
              \<lparr>Depth := \<lparr>Buy = take (length ?g div 2) ?g, Sell = drop (length ?g div 2) ?g\<rparr>\<rparr>"
  let ?lg = "snd (assign_header (ParseBinary (elems packet) 64))"
  have d: "decode_packet ParseBinary ParseMarketDepth packet = (?lg, Inr ?t)"
    using assms
    by (rule decode_packet_long [where packet = packet and pmd = ParseMarketDepth])
  have "Buy (Depth ?t) = take (length ?g div 2) ?g \<and> Sell (Depth ?t) = drop (length ?g div 2) ?g"
    by simp
  then show ?thesis
    using d process_packet_known [OF d] by (intro exI [of _ ?t]) auto
qed

text \<open>The theorem at a full header followed by two depth levels.\<close>
theorem depth_ladder_split_witness:
  "64 < slen \<lparr>elems = full_header @ two_levels, spare = []\<rparr> \<and>
   length (ParseMarketDepth_spec (drop 64 (full_header @ two_levels))) mod 3 = 0 \<and>
   (\<exists>t. snd (decode_packet ParseBinary_spec ParseMarketDepth_spec
              \<lparr>elems = full_header @ two_levels, spare = []\<rparr>) = Inr t \<and>
        Buy (Depth t) = [\<lparr>Price = 200, Quantity = 10, Orders = 1\<rparr>] \<and>
        Sell (Depth t) = [\<lparr>Price = 201, Quantity = 20, Orders = 2\<rparr>])"
proof -
  have h1: "64 < slen \<lparr>elems = full_header @ two_levels, spare = []\<rparr>"
    by (simp add: slen_def length_full_header two_levels_def)
  have dr: "drop 64 (full_header @ two_levels) = two_levels"
    by (simp add: length_full_header)
  have h2: "length (ParseMarketDepth_spec
              (drop 64 (elems \<lparr>elems = full_header @ two_levels, spare = []\<rparr>))) mod 3 = 0"
    by (simp only: goslice.select_convs dr two_levels_values) simp
  have g: "depth_groups (ParseMarketDepth_spec
              (drop 64 (elems \<lparr>elems = full_header @ two_levels, spare = []\<rparr>))) =
      [\<lparr>Price = 200, Quantity = 10, Orders = 1\<rparr>, \<lparr>Price = 201, Quantity = 20, Orders = 2\<rparr>]"
    by (simp only: goslice.select_convs dr two_levels_values) simp
  have "\<exists>t. snd (decode_packet ParseBinary_spec ParseMarketDepth_spec
              \<lparr>elems = full_header @ two_levels, spare = []\<rparr>) = Inr t \<and>
        Buy (Depth t) = [\<lparr>Price = 200, Quantity = 10, Orders = 1\<rparr>] \<and>
        Sell (Depth t) = [\<lparr>Price = 201, Quantity = 20, Orders = 2\<rparr>]"
    using depth_ladder_split [where packet = "\<lparr>elems = full_header @ two_levels, spare = []\<rparr>"
        and ParseMarketDepth = ParseMarketDepth_spec and ParseBinary = ParseBinary_spec] h1 h2
    unfolding g by auto
  then show ?thesis using h1 h2 by simp
qed

text \<open>
  Claim C7. A payload whose header parses to exactly 16 values is decoded, with nothing
  logged, to a ticker whose sixteen fields are the sixteen values in the order Token,
  LastPrice, LastTradedQuantity, AverageTradedPrice, VolumeTraded, TotalBuy, TotalSell,
  High, Low, Open, Close, LastTradedTimestamp, OI, OIHigh, OILow, ExchangeTimestamp;
  when the token is in the directory, the tick is that ticker with its lot size set.
\<close>
theorem full_packet_field_order:
  assumes "ParseBinary (elems packet) (min 64 (slen packet)) =
             [v0, v1, v2, v3, v4, v5, v6, v7, v8, v9, v10, v11, v12, v13, v14, v15]"
    and "64 < slen packet \<longrightarrow> length (ParseMarketDepth (drop 64 (elems packet))) mod 3 = 0"
  shows "\<exists>t. decode_packet ParseBinary ParseMarketDepth packet = ([], Inr t) \<and>
           Token t = v0 \<and> LastPrice t = v1 \<and> LastTradedQuantity t = v2 \<and>
           AverageTradedPrice t = v3 \<and> VolumeTraded t = v4 \<and> TotalBuy t = v5 \<and>
           TotalSell t = v6 \<and> High t = v7 \<and> Low t = v8 \<and> Open t = v9 \<and> Close t = v10 \<and>
           LastTradedTimestamp t = v11 \<and> OI t = v12 \<and> OIHigh t = v13 \<and> OILow t = v14 \<and>
           ExchangeTimestamp t = v15 \<and>
           (\<forall>D inst. D v0 = Some inst \<longrightarrow>
              process_packet D ParseBinary ParseMarketDepth packet =
                ([], Inr (t\<lparr>LotSize := tm_LotSize inst\<rparr>)))"
proof -
  let ?vs = "[v0, v1, v2, v3, v4, v5, v6, v7, v8, v9, v10, v11, v12, v13, v14, v15]"
  let ?h = "new_ticker\<lparr>Token := v0, LastPrice := v1, LastTradedQuantity := v2,
     AverageTradedPrice := v3, VolumeTraded := v4, TotalBuy := v5, TotalSell := v6, High := v7,
     Low := v8, Open := v9, Close := v10, LastTradedTimestamp := v11, OI := v12, OIHigh := v13,
     OILow := v14, ExchangeTimestamp := v15\<rparr>"
  have ah: "assign_header ?vs = (?h, [])"
    by (simp add: assign_header_def)
  show ?thesis
  proof (cases "64 < slen packet")
    case True
    then have m: "min 64 (slen packet) = 64" by simp
    have md: "length (ParseMarketDepth (drop 64 (elems packet))) mod 3 = 0"
      using assms(2) True by simp
    let ?g = "depth_groups (ParseMarketDepth (drop 64 (elems packet)))"
    let ?t = "?h\<lparr>Depth := \<lparr>Buy = take (length ?g div 2) ?g, Sell = drop (length ?g div 2) ?g\<rparr>\<rparr>"
    have d: "decode_packet ParseBinary ParseMarketDepth packet = ([], Inr ?t)"
      using decode_packet_long [where packet = packet and pmd = ParseMarketDepth
          and pb = ParseBinary] True md assms(1)
      by (simp add: m ah)
    show ?thesis
      using d process_packet_known [OF d] by (intro exI [of _ ?t]) simp
  next
    case False
    then have m: "min 64 (slen packet) = slen packet" by simp
    have d: "decode_packet ParseBinary ParseMarketDepth packet = ([], Inr ?h)"
      using decode_packet_short [of packet ParseBinary ParseMarketDepth] False assms(1)
      by (simp add: m ah)
    show ?thesis
      using d process_packet_known [OF d] by (intro exI [of _ ?h]) simp
  qed
qed

lemma advance_ok: "\<exists>m. advance message ps = Inr m"
  by (simp add: advance_def reslice_from_def)

lemma assign_header_unknown:
  "length vs \<notin> {2, 7, 8, 11, 16} \<Longrightarrow>
   assign_header vs =
     ((if 2 \<le> length vs then new_ticker\<lparr>Token := vs ! 0, LastPrice := vs ! 1\<rparr>
       else new_ticker),
      [UnknownPacketLength (length vs) vs])"
  by (simp add: assign_header_def)

text \<open>The theorem at the 64-byte packet of the sample data.\<close>
theorem full_packet_field_order_witness:
  "ParseBinary_spec full_header (min 64 (slen \<lparr>elems = full_header, spare = []\<rparr>)) =
     [5, 100, 3, 4, 5, 6, 7, 8, 9, 10, 11, 12, 13, 14, 15, 16] \<and>
   (\<exists>t. decode_packet ParseBinary_spec ParseMarketDepth_spec
           \<lparr>elems = full_header, spare = []\<rparr> = ([], Inr t) \<and>
        Token t = 5 \<and> LastPrice t = 100 \<and> LastTradedQuantity t = 3 \<and>
        AverageTradedPrice t = 4 \<and> VolumeTraded t = 5 \<and> TotalBuy t = 6 \<and>
        TotalSell t = 7 \<and> High t = 8 \<and> Low t = 9 \<and> Open t = 10 \<and> Close t = 11 \<and>
        LastTradedTimestamp t = 12 \<and> OI t = 13 \<and> OIHigh t = 14 \<and> OILow t = 15 \<and>
        ExchangeTimestamp t = 16 \<and>
        process_packet sample_directory ParseBinary_spec ParseMarketDepth_spec
           \<lparr>elems = full_header, spare = []\<rparr> = ([], Inr (t\<lparr>LotSize := 25\<rparr>)))"
proof -
  let ?P = "\<lparr>elems = full_header, spare = []\<rparr>"
  have h1: "ParseBinary_spec (elems ?P) (min 64 (slen ?P)) =
     [5, 100, 3, 4, 5, 6, 7, 8, 9, 10, 11, 12, 13, 14, 15, 16]"
    by (simp add: slen_def length_full_header full_header_fields)
  have h2: "64 < slen ?P \<longrightarrow> length (ParseMarketDepth_spec (drop 64 (elems ?P))) mod 3 = 0"
    by (simp add: slen_def length_full_header)
  have k: "sample_directory 5 = Some sample_instrument" "tm_LotSize sample_instrument = 25"
    by (simp_all add: sample_directory_def sample_instrument_def)
  show ?thesis
    using full_packet_field_order [where ParseBinary = ParseBinary_spec
        and ParseMarketDepth = ParseMarketDepth_spec, OF h1 h2] h1 k
    by fastforce
qed

text \<open>
  Claim C1. When the token of a decoded packet is not a key of the directory, the lookup
  yields the nil pointer and reading its lot size panics: the packet yields no tick, and
  the handler ends there, with the packets that follow in the message left undone.
\<close>
theorem unknown_token_panics:
  assumes "reslice message 0 2 = Inr h"
    and "reslice message 2 (unat (Uint16 (elems h) + 2)) = Inr packet"
    and "decode_packet ParseBinary ParseMarketDepth packet = (lg, Inr t)"
    and "D (Token t) = None"
  shows "process_packet D ParseBinary ParseMarketDepth packet = (lg, Inl NilDereference) \<and>
         packets_loop D ParseBinary ParseMarketDepth (Suc n) message =
           ([], lg, Some NilDereference)"
  using assms process_packet_unknown [where pb = ParseBinary and pmd = ParseMarketDepth
      and D = D, OF assms(3,4)]
  by (simp add: packets_loop.simps(2))

text \<open>The theorem at a last-price packet for token 9, which the sample directory lacks.\<close>
theorem unknown_token_panics_witness:
  "sample_directory 9 = None \<and>
   process_packet sample_directory ParseBinary_spec ParseMarketDepth_spec
     \<lparr>elems = [0, 0, 0, 9, 0, 0, 0, 100], spare = []\<rparr> = ([], Inl NilDereference) \<and>
   packets_loop sample_directory ParseBinary_spec ParseMarketDepth_spec (Suc 0)
     \<lparr>elems = [0, 8, 0, 0, 0, 9, 0, 0, 0, 100], spare = []\<rparr> = ([], [], Some NilDereference) \<and>
   handle_message sample_directory ParseBinary_spec ParseMarketDepth_spec
     \<lparr>elems = [0, 1, 0, 8, 0, 0, 0, 9, 0, 0, 0, 100], spare = []\<rparr> =
     ([], [], Some NilDereference)"
proof -
  let ?M = "\<lparr>elems = [0, 8, 0, 0, 0, 9, 0, 0, 0, 100], spare = []\<rparr>"
  let ?H = "\<lparr>elems = [0, 8], spare = [0, 0, 0, 9, 0, 0, 0, 100]\<rparr>"
  let ?P = "\<lparr>elems = [0, 0, 0, 9, 0, 0, 0, 100], spare = []\<rparr>"
  let ?t = "new_ticker\<lparr>Token := 9, LastPrice := 100\<rparr>"
  have h1: "reslice ?M 0 2 = Inr ?H"
    by (simp add: reslice_def scap_def)
  have h2: "reslice ?M 2 (unat (Uint16 (elems ?H) + 2)) = Inr ?P"
    by (simp add: reslice_def scap_def Uint16_def)
  have h3: "decode_packet ParseBinary_spec ParseMarketDepth_spec ?P = ([], Inr ?t)"
    by (simp add: decode_packet_def slen_def ParseBinary_spec_def assign_header_def)
  have h4: "sample_directory (Token ?t) = None"
    by (simp add: sample_directory_def)
  have k: "sample_directory 9 = None"
    by (simp add: sample_directory_def)
  have m: "handle_message sample_directory ParseBinary_spec ParseMarketDepth_spec
     \<lparr>elems = [0, 1, 0, 8, 0, 0, 0, 9, 0, 0, 0, 100], spare = []\<rparr> =
     packets_loop sample_directory ParseBinary_spec ParseMarketDepth_spec (Suc 0) ?M"
    by (simp add: handle_message_def reslice_def reslice_from_def scap_def slen_def Uint16_def)
  show ?thesis
    using unknown_token_panics [where ParseBinary = ParseBinary_spec
        and ParseMarketDepth = ParseMarketDepth_spec and D = sample_directory and n = 0,
        OF h1 h2 h3 h4] k m
    by simp
qed

lemma packets_loop_numeral:
  "packets_loop D pb pmd (numeral k) m = packets_loop D pb pmd (Suc (pred_numeral k)) m"
  by (simp only: numeral_eq_Suc)

text \<open>
  Claim C6 as stated fails: a message of two packets, the first with three fields, the
  second with two. The first is logged as unknown and a ticker is built from it all the
  same.
\<close>
theorem unrecognized_packet_yields_record:
  "handle_message sample_directory ParseBinary_spec ParseMarketDepth_spec
     \<lparr>elems = [0, 2, 0, 12, 0, 0, 0, 5, 0, 0, 0, 100, 0, 0, 0, 7, 0, 8, 0, 0, 0, 5, 0, 0, 0, 101],
       spare = []\<rparr> =
   ([new_ticker\<lparr>Token := 5, LastPrice := 100, LotSize := 25\<rparr>,
     new_ticker\<lparr>Token := 5, LastPrice := 101, LotSize := 25\<rparr>],
    [UnknownPacketLength 3 [5, 100, 7]], None)"
proof -
  have m: "handle_message sample_directory ParseBinary_spec ParseMarketDepth_spec
     \<lparr>elems = [0, 2, 0, 12, 0, 0, 0, 5, 0, 0, 0, 100, 0, 0, 0, 7, 0, 8, 0, 0, 0, 5, 0, 0, 0, 101],
       spare = []\<rparr> =
     packets_loop sample_directory ParseBinary_spec ParseMarketDepth_spec 2
       \<lparr>elems = [0, 12, 0, 0, 0, 5, 0, 0, 0, 100, 0, 0, 0, 7, 0, 8, 0, 0, 0, 5, 0, 0, 0, 101],
         spare = []\<rparr>"
    by (simp add: handle_message_def reslice_def reslice_from_def scap_def slen_def Uint16_def)
  show ?thesis
    unfolding m
    by (simp add: packets_loop_numeral packets_loop.simps(2) reslice_def reslice_from_def scap_def slen_def Uint16_def
        process_packet_def decode_packet_def enrich_def advance_def
        ParseBinary_spec_def assign_header_def sample_directory_def sample_instrument_def)
qed

text \<open>
  Claim C6, amended. A packet whose number of header values is none of 2, 7, 8, 11 and
  16 is logged as unknown and is not skipped: when its token is in the directory, a
  ticker is built from it, which is, its depth apart, the fresh ticker with the token
  and the last price set (if there are two values at least) and the lot size of the
  directory; the loop then goes on with the packets that remain.
\<close>
theorem unrecognized_count_still_decoded:
  assumes "reslice message 0 2 = Inr h"
    and "reslice message 2 (unat (Uint16 (elems h) + 2)) = Inr packet"
    and "ParseBinary (elems packet) (min 64 (slen packet)) = vs"
    and "length vs \<notin> {2, 7, 8, 11, 16}"
    and "64 < slen packet \<longrightarrow> length (ParseMarketDepth (drop 64 (elems packet))) mod 3 = 0"
    and "D (if 2 \<le> length vs then vs ! 0 else 0) = Some inst"
  shows "\<exists>t message'. advance message (Uint16 (elems h)) = Inr message' \<and>
     packets_loop D ParseBinary ParseMarketDepth (Suc n) message =
       (case packets_loop D ParseBinary ParseMarketDepth n message' of
          (ts, ls, r) \<Rightarrow> (t # ts, UnknownPacketLength (length vs) vs # ls, r)) \<and>
     t\<lparr>Depth := Depth new_ticker\<rparr> =
       (if 2 \<le> length vs then new_ticker\<lparr>Token := vs ! 0, LastPrice := vs ! 1\<rparr>
        else new_ticker)\<lparr>LotSize := tm_LotSize inst\<rparr>"
proof -
  let ?h = "if 2 \<le> length vs then new_ticker\<lparr>Token := vs ! 0, LastPrice := vs ! 1\<rparr>
            else new_ticker"
  have ah: "assign_header vs = (?h, [UnknownPacketLength (length vs) vs])"
    by (rule assign_header_unknown [OF assms(4)])
  have tk: "Token ?h = (if 2 \<le> length vs then vs ! 0 else 0)"
    by (simp add: new_ticker_def)
  obtain message' where adv: "advance message (Uint16 (elems h)) = Inr message'"
    using advance_ok by blast
  have "\<exists>t. decode_packet ParseBinary ParseMarketDepth packet =
           ([UnknownPacketLength (length vs) vs], Inr t) \<and> Token t = Token ?h \<and>
           t\<lparr>Depth := Depth new_ticker\<rparr> = ?h"
  proof (cases "64 < slen packet")
    case True
    then have m: "min 64 (slen packet) = 64" by simp
    have md: "length (ParseMarketDepth (drop 64 (elems packet))) mod 3 = 0"
      using assms(5) True by simp
    show ?thesis
      using decode_packet_long [where packet = packet and pmd = ParseMarketDepth
          and pb = ParseBinary] True md assms(3)
      by (simp add: m ah new_ticker_def)
  next
    case False
    then have m: "min 64 (slen packet) = slen packet" by simp
    show ?thesis
      using decode_packet_short [of packet ParseBinary ParseMarketDepth] False assms(3)
      by (simp add: m ah new_ticker_def)
  qed
  then obtain t where d: "decode_packet ParseBinary ParseMarketDepth packet =
           ([UnknownPacketLength (length vs) vs], Inr t)"
      and tt: "Token t = Token ?h" and dd: "t\<lparr>Depth := Depth new_ticker\<rparr> = ?h"
    by blast
  have look: "D (Token t) = Some inst" using assms(6) tt tk by simp
  have pp: "process_packet D ParseBinary ParseMarketDepth packet =
     ([UnknownPacketLength (length vs) vs], Inr (t\<lparr>LotSize := tm_LotSize inst\<rparr>))"
    by (rule process_packet_known [where pb = ParseBinary and pmd = ParseMarketDepth
          and D = D, OF d look])
  have e: "(t\<lparr>LotSize := tm_LotSize inst\<rparr>)\<lparr>Depth := Depth new_ticker\<rparr> =
     ?h\<lparr>LotSize := tm_LotSize inst\<rparr>"
    using dd by (cases t) (simp add: new_ticker_def split: if_splits)
  show ?thesis
    using assms(1,2) pp adv e
    by (intro exI [of _ "t\<lparr>LotSize := tm_LotSize inst\<rparr>"] exI [of _ message'])
       (simp add: packets_loop.simps(2) split: prod.splits)
qed

text \<open>The theorem at the message of the example above.\<close>
theorem unrecognized_count_still_decoded_witness:
  "length [5, 100, 7 :: u32] \<notin> {2, 7, 8, 11, 16} \<and>
   (\<exists>t message'.
      advance \<lparr>elems = [0, 12, 0, 0, 0, 5, 0, 0, 0, 100, 0, 0, 0, 7, 0, 8, 0, 0, 0, 5,
                          0, 0, 0, 101], spare = []\<rparr> 12 = Inr message' \<and>
      packets_loop sample_directory ParseBinary_spec ParseMarketDepth_spec (Suc (Suc 0))
        \<lparr>elems = [0, 12, 0, 0, 0, 5, 0, 0, 0, 100, 0, 0, 0, 7, 0, 8, 0, 0, 0, 5,
                   0, 0, 0, 101], spare = []\<rparr> =
        (case packets_loop sample_directory ParseBinary_spec ParseMarketDepth_spec (Suc 0)
                message' of
           (ts, ls, r) \<Rightarrow> (t # ts, UnknownPacketLength 3 [5, 100, 7] # ls, r)) \<and>
      t\<lparr>Depth := Depth new_ticker\<rparr> = new_ticker\<lparr>Token := 5, LastPrice := 100, LotSize := 25\<rparr>)"
proof -
  let ?M = "\<lparr>elems = [0, 12, 0, 0, 0, 5, 0, 0, 0, 100, 0, 0, 0, 7, 0, 8, 0, 0, 0, 5,
                      0, 0, 0, 101 :: byte], spare = []\<rparr>"
  let ?H = "\<lparr>elems = [0, 12 :: byte],
             spare = [0, 0, 0, 5, 0, 0, 0, 100, 0, 0, 0, 7, 0, 8, 0, 0, 0, 5, 0, 0, 0, 101]\<rparr>"
  let ?P = "\<lparr>elems = [0, 0, 0, 5, 0, 0, 0, 100, 0, 0, 0, 7 :: byte],
             spare = [0, 8, 0, 0, 0, 5, 0, 0, 0, 101]\<rparr>"
  have s: "Uint16 [0, 12] = 12" by (simp add: Uint16_def)
  have h1: "reslice ?M 0 2 = Inr ?H"
    by (simp add: reslice_def scap_def)
  have h2: "reslice ?M 2 (unat (Uint16 (elems ?H) + 2)) = Inr ?P"
    by (simp add: reslice_def scap_def s)
  have h3: "ParseBinary_spec (elems ?P) (min 64 (slen ?P)) = [5, 100, 7]"
    by (simp add: ParseBinary_spec_def slen_def)
  have h4: "length [5, 100, 7 :: u32] \<notin> {2, 7, 8, 11, 16}" by simp
  have h5: "64 < slen ?P \<longrightarrow> length (ParseMarketDepth_spec (drop 64 (elems ?P))) mod 3 = 0"
    by (simp add: slen_def)
  have h6: "sample_directory (if 2 \<le> length [5, 100, 7 :: u32] then [5, 100, 7] ! 0 else 0) =
      Some sample_instrument"
    by (simp add: sample_directory_def)
  have l: "tm_LotSize sample_instrument = 25" by (simp add: sample_instrument_def)
  have "\<exists>t message'.
      advance ?M 12 = Inr message' \<and>
      packets_loop sample_directory ParseBinary_spec ParseMarketDepth_spec (Suc (Suc 0)) ?M =
        (case packets_loop sample_directory ParseBinary_spec ParseMarketDepth_spec (Suc 0)
                message' of
           (ts, ls, r) \<Rightarrow> (t # ts, UnknownPacketLength 3 [5, 100, 7] # ls, r)) \<and>
      t\<lparr>Depth := Depth new_ticker\<rparr> = new_ticker\<lparr>Token := 5, LastPrice := 100, LotSize := 25\<rparr>"
    using unrecognized_count_still_decoded [where ParseBinary = ParseBinary_spec
        and ParseMarketDepth = ParseMarketDepth_spec and D = sample_directory
        and n = "Suc 0", OF h1 h2 h3 h4 h5 h6]
    by (simp add: s l numeral_3_eq_3)
  then show ?thesis using h4 by blast
qed

section \<open>The rotation and its settings\<close>

lemma activeBatchTokens_ok:
  assumes "0 \<le> pos"
  shows "\<exists>active. activeBatchTokens allTokens mcxTokens per now pos = Inr active"
proof -
  let ?n = "int (length allTokens)"
  let ?e = "if pos + per > ?n then ?n else pos + per"
  have e: "?e \<le> ?n" by simp
  have c: "\<forall>i \<in> set [pos..?e - 1]. 0 \<le> i \<and> i < ?n"
  proof
    fix i assume "i \<in> set [pos..?e - 1]"
    then have "pos \<le> i" and "i \<le> ?e - 1" by simp_all
    then show "0 \<le> i \<and> i < ?n" using assms e by linarith
  qed
  show ?thesis
    unfolding activeBatchTokens_def Let_def
    apply (rule exI)
    apply (rule if_P)
    apply (rule c)
    done
qed

lemma rotation_body_first:
  assumes "0 < per"
  shows "\<exists>sent s. rotation_body allTokens mcxTokens per now 0 isSub = Inr (sent, s) \<and>
           (\<forall>ts. Unsubscribe ts \<notin> set sent)"
proof -
  have u: "unsubscribe_previous allTokens per 0 isSub = Inr ([], isSub)"
    using assms by (simp add: unsubscribe_previous_def)
  obtain active where a: "activeBatchTokens allTokens mcxTokens per now 0 = Inr active"
    using activeBatchTokens_ok [of 0] by blast
  show ?thesis
    by (auto simp add: rotation_body_def u a)
qed

lemma rotation_body_next:
  assumes "0 < per" and "per \<le> pos" and "pos < int (length allTokens)"
  shows "\<exists>rest s. rotation_body allTokens mcxTokens per now pos True =
           Inr (Unsubscribe (take (nat per) (drop (nat (pos - per)) allTokens)) # rest, s)"
proof -
  have u: "unsubscribe_previous allTokens per pos True =
     Inr ([Unsubscribe (take (nat per) (drop (nat (pos - per)) allTokens))], False)"
    using assms by (simp add: unsubscribe_previous_def)
  obtain active where a: "activeBatchTokens allTokens mcxTokens per now pos = Inr active"
    using activeBatchTokens_ok [of pos] assms by force
  show ?thesis
    by (auto simp add: rotation_body_def u a)
qed

lemma rotation_body_zero:
  assumes "0 < length allTokens"
  shows "rotation_body allTokens mcxTokens 0 now 0 isSub =
           Inr (if isSub then [Unsubscribe []] else [], False)"
proof -
  have u: "unsubscribe_previous allTokens 0 0 isSub =
     Inr (if isSub then [Unsubscribe []] else [], False)"
    by (simp add: unsubscribe_previous_def)
  have a: "activeBatchTokens allTokens mcxTokens 0 now 0 = Inr []"
    using assms by (simp add: activeBatchTokens_def)
  show ?thesis
    by (simp add: rotation_body_def u a)
qed

text \<open>
  Claim C3. Five tokens in batches of two, every token within its trading time: within
  a pass each batch is unsubscribed before the next is subscribed, but at the return
  from the last batch to the first nothing is unsubscribed. After the first batch of
  the second pass is subscribed, the token of the last batch and the two of the first
  are in flight, three for a batch size of two, and the last batch stays in flight
  through the second pass.
\<close>
theorem last_batch_not_unsubscribed_at_wrap:
  "rotate 5 [1, 2, 3, 4, 5] [] 2 (\<lambda>k. 600) rotation_start =
     ([SubscribeFull [1, 2], Unsubscribe [1, 2], SubscribeFull [3, 4], Unsubscribe [3, 4],
       SubscribeFull [5], SubscribeFull [1, 2]], None) \<and>
   in_flight (fst (rotate 5 [1, 2, 3, 4, 5] [] 2 (\<lambda>k. 600) rotation_start)) [] = [5, 1, 2] \<and>
   in_flight (fst (rotate 9 [1, 2, 3, 4, 5] [] 2 (\<lambda>k. 600) rotation_start)) [] = [5, 1, 2]"
  by code_simp

lemma rotate_zero_batch:
  "start st = 0 \<Longrightarrow>
   snd (rotate k allTokens mcxTokens 0 clock st) = None \<and>
   (\<forall>ts. SubscribeFull ts \<notin> set (fst (rotate k allTokens mcxTokens 0 clock st)))"
proof (induction k arbitrary: st)
  case 0
  then show ?case by simp
next
  case (Suc k)
  let ?n = "int (length allTokens)"
  show ?case
  proof (cases "0 < ?n")
    case True
    have b: "rotation_body allTokens mcxTokens 0 (clock (cycle st)) 0 (isSubscribed st) =
       Inr (if isSubscribed st then [Unsubscribe []] else [], False)"
      using True by (simp add: rotation_body_zero)
    have ih: "snd (rotate k allTokens mcxTokens 0 clock (st\<lparr>start := 0, isSubscribed := False\<rparr>)) = None \<and>
       (\<forall>ts. SubscribeFull ts \<notin>
          set (fst (rotate k allTokens mcxTokens 0 clock (st\<lparr>start := 0, isSubscribed := False\<rparr>))))"
      by (rule Suc.IH) simp
    show ?thesis
      using True Suc.prems b ih by (auto split: prod.splits)
  next
    case False
    have ih: "snd (rotate k allTokens mcxTokens 0 clock (st\<lparr>cycle := cycle st + 1, start := 0\<rparr>)) = None \<and>
       (\<forall>ts. SubscribeFull ts \<notin>
          set (fst (rotate k allTokens mcxTokens 0 clock (st\<lparr>cycle := cycle st + 1, start := 0\<rparr>))))"
      by (rule Suc.IH) simp
    show ?thesis
      using False Suc.prems ih by simp
  qed
qed

lemma rotate_no_batch:
  "rotate 4 [1, 2, 3, 4, 5] [] 0 (\<lambda>k. 600) rotation_start = ([Unsubscribe []], None)"
  by code_simp

lemma rotate_negative_batch:
  "rotate 1 [1, 2, 3, 4, 5] [] (- 1) (\<lambda>k. 600) rotation_start = ([], Some SliceBounds)"
  by code_simp

lemma int_of_float64_zero: "int_of_float64 (Finite 0) = Some 0"
  by (simp add: int_of_float64_def)

lemma int_of_float64_minus_one: "int_of_float64 (Finite (- 1)) = Some (- 1)"
proof -
  have "\<lceil>- 1 :: real\<rceil> = - 1" by (simp add: ceiling_eq_iff)
  then show ?thesis by (simp add: int_of_float64_def)
qed

text \<open>
  Claim C4. Neither setting is validated and no value is fatal. With the count
  unparsable (\<open>ParseFloat\<close> then returns 0 and an error) the error is logged and the
  rotation runs with batches of 0 tokens: it stays at the first position and subscribes
  nothing. With the count -1, which parses, nothing is logged and the first step of the
  rotation panics on the slice of the previous chunk.
\<close>
theorem invalid_settings_proceed:
  "Serve_settings (Finite 2, None) (Finite 0, Some ''invalid syntax'') =
     Proceeds \<lparr>rotationInterval = Finite 2, instrumentsPerRequest = Finite 0\<rparr>
       [''invalid syntax''] \<and>
   Serve_rotation 4 [1, 2, 3, 4, 5] [] (\<lambda>k. 600)
     (Serve_settings (Finite 2, None) (Finite 0, Some ''invalid syntax'')) =
     Rotated [Unsubscribe []] None \<and>
   Serve_settings (Finite 2, None) (Finite (- 1), None) =
     Proceeds \<lparr>rotationInterval = Finite 2, instrumentsPerRequest = Finite (- 1)\<rparr> [] \<and>
   Serve_rotation 1 [1, 2, 3, 4, 5] [] (\<lambda>k. 600)
     (Serve_settings (Finite 2, None) (Finite (- 1), None)) =
     Rotated [] (Some SliceBounds)"
proof -
  have s0: "Serve_settings (Finite 2, None) (Finite 0, Some ''invalid syntax'') =
     Proceeds \<lparr>rotationInterval = Finite 2, instrumentsPerRequest = Finite 0\<rparr>
       [''invalid syntax'']"
    by (simp add: Serve_settings_def)
  have s1: "Serve_settings (Finite 2, None) (Finite (- 1), None) =
     Proceeds \<lparr>rotationInterval = Finite 2, instrumentsPerRequest = Finite (- 1)\<rparr> []"
    by (simp add: Serve_settings_def)
  have r0: "Serve_rotation 4 [1, 2, 3, 4, 5] [] (\<lambda>k. 600)
     (Proceeds \<lparr>rotationInterval = Finite 2, instrumentsPerRequest = Finite 0\<rparr>
       [''invalid syntax'']) = Rotated [Unsubscribe []] None"
    unfolding Serve_rotation_def
    by (simp only: startup.case settings.select_convs int_of_float64_zero option.case
          rotate_no_batch prod.case)
  have r1: "Serve_rotation 1 [1, 2, 3, 4, 5] [] (\<lambda>k. 600)
     (Proceeds \<lparr>rotationInterval = Finite 2, instrumentsPerRequest = Finite (- 1)\<rparr> []) =
     Rotated [] (Some SliceBounds)"
    unfolding Serve_rotation_def
    by (simp only: startup.case settings.select_convs int_of_float64_minus_one option.case
          rotate_negative_batch prod.case)
  show ?thesis
    unfolding s0 s1 using r0 r1 by blast
qed

section \<open>The wait for a quote\<close>

lemma absent_or_zero_not_priced: "absent_or_zero m k \<Longrightarrow> \<not> priced m k"
  by (simp add: absent_or_zero_def priced_def split: option.splits)

lemma wait_loop_times_out:
  assumes "\<forall>i<50. \<not> priced (cache (i * checkInterval)) symbolKey \<and>
                  \<not> priced (cache (i * checkInterval)) tradingSymbol"
    and "j \<le> 50"
  shows "wait_loop cache symbolKey tradingSymbol (j * checkInterval) = (False, maxWaitTime)"
  using assms(2)
proof (induction "50 - j" arbitrary: j)
  case 0
  then have "j = 50" by simp
  then show ?case
    by (subst wait_loop.simps) (simp add: maxWaitTime_def checkInterval_def)
next
  case (Suc n)
  then have j: "j < 50" by simp
  then have lt: "j * checkInterval < maxWaitTime"
    by (simp add: maxWaitTime_def checkInterval_def)
  have np: "\<not> priced (cache (j * checkInterval)) symbolKey"
       "\<not> priced (cache (j * checkInterval)) tradingSymbol"
    using assms(1) j by simp_all
  have "wait_loop cache symbolKey tradingSymbol (Suc j * checkInterval) = (False, maxWaitTime)"
    using Suc.hyps(1) [of "Suc j"] Suc.hyps(2) j by simp
  then have "wait_loop cache symbolKey tradingSymbol (j * checkInterval + checkInterval) =
      (False, maxWaitTime)"
    by (simp add: add.commute)
  then show ?case
    by (subst wait_loop.simps) (simp add: lt np)
qed

lemma priced_zero_as_absent:
  "priced (m(k \<mapsto> ticker\<lparr>kt_LastPrice := 0\<rparr>)) k' = priced (m(k := None)) k'"
  by (simp add: priced_def)

text \<open>
  Claim C10. The wait succeeds only on an entry with a positive last price, under either
  key. When, at each of the 50 polls, the entries under the key "exchange:symbol" and
  under the bare symbol are absent or have the last price 0, the loop runs until the
  whole of \<open>maxWaitTime\<close> has elapsed and \<open>addToBatchAndWait\<close> returns the timeout
  error, as it does when both are absent.
\<close>
theorem zero_price_waits_out:
  assumes "BrokerInstrumentTokens = Some instruments"
    and "instruments (exchange @ '':'' @ tradingSymbol) = Some token"
    and "TickerClients \<noteq> []"
    and "subscribe_clients TickerClients token = None"
    and "\<forall>i<50. absent_or_zero (cache (i * checkInterval)) (exchange @ '':'' @ tradingSymbol) \<and>
                  absent_or_zero (cache (i * checkInterval)) tradingSymbol"
  shows "wait_loop cache (exchange @ '':'' @ tradingSymbol) tradingSymbol 0 = (False, maxWaitTime) \<and>
         addToBatchAndWait BrokerInstrumentTokens TickerClients cache exchange tradingSymbol =
           Some (WaitTimeout (exchange @ '':'' @ tradingSymbol))"
proof -
  have np: "\<forall>i<50. \<not> priced (cache (i * checkInterval)) (exchange @ '':'' @ tradingSymbol) \<and>
                  \<not> priced (cache (i * checkInterval)) tradingSymbol"
    using assms(5) absent_or_zero_not_priced by blast
  have w: "wait_loop cache (exchange @ '':'' @ tradingSymbol) tradingSymbol 0 = (False, maxWaitTime)"
    using wait_loop_times_out [OF np, of 0] by simp
  show ?thesis
    using assms(1-4) w by (simp add: addToBatchAndWait_def)
qed

text \<open>The theorem at a cache that holds a tick with the last price 0 under both keys.\<close>
theorem zero_price_waits_out_witness:
  "absent_or_zero [''NSE:INFY'' \<mapsto> zero_tick, ''INFY'' \<mapsto> zero_tick] ''NSE:INFY'' \<and>
   [''NSE:INFY'' \<mapsto> zero_tick, ''INFY'' \<mapsto> zero_tick] ''NSE:INFY'' = Some zero_tick \<and>
   wait_loop (\<lambda>t. [''NSE:INFY'' \<mapsto> zero_tick, ''INFY'' \<mapsto> zero_tick]) ''NSE:INFY'' ''INFY'' 0 =
     (False, 5000) \<and>
   addToBatchAndWait (Some [''NSE:INFY'' \<mapsto> 5]) [Some (\<lambda>tokens. None)]
     (\<lambda>t. [''NSE:INFY'' \<mapsto> zero_tick, ''INFY'' \<mapsto> zero_tick]) ''NSE'' ''INFY'' =
     Some (WaitTimeout ''NSE:INFY'')"
proof -
  let ?m = "[''NSE:INFY'' \<mapsto> zero_tick, ''INFY'' \<mapsto> zero_tick]"
  have k: "''NSE'' @ '':'' @ ''INFY'' = ''NSE:INFY''" by simp
  have a1: "absent_or_zero ?m ''NSE:INFY''" and a2: "absent_or_zero ?m ''INFY''"
    by (simp_all add: absent_or_zero_def zero_tick_def)
  have h1: "Some [''NSE:INFY'' \<mapsto> (5 :: u32)] = Some [''NSE:INFY'' \<mapsto> 5]" by simp
  have h2: "[''NSE:INFY'' \<mapsto> (5 :: u32)] (''NSE'' @ '':'' @ ''INFY'') = Some 5" by simp
  have h3: "[Some (\<lambda>tokens :: u32 list. None :: error option)] \<noteq> []" by simp
  have h4: "subscribe_clients [Some (\<lambda>tokens. None)] 5 = None" by simp
  have h5: "\<forall>i<50. absent_or_zero ((\<lambda>t. ?m) (i * checkInterval)) (''NSE'' @ '':'' @ ''INFY'') \<and>
                  absent_or_zero ((\<lambda>t. ?m) (i * checkInterval)) ''INFY''"
    using a1 a2 by simp
  have "wait_loop (\<lambda>t. ?m) ''NSE:INFY'' ''INFY'' 0 = (False, 5000) \<and>
   addToBatchAndWait (Some [''NSE:INFY'' \<mapsto> 5]) [Some (\<lambda>tokens. None)]
     (\<lambda>t. ?m) ''NSE'' ''INFY'' = Some (WaitTimeout ''NSE:INFY'')"
    using zero_price_waits_out [where cache = "\<lambda>t. ?m", OF h1 h2 h3 h4 h5]
    by (simp add: maxWaitTime_def)
  then show ?thesis using a1 by simp
qed

end
